theory Spec2Isabelle
  imports Main
begin

section \<open>The Notifier: \<^verbatim>\<open>EventEmitter\<close> of \<^verbatim>\<open>utils/Event.ts\<close>\<close>

text \<open>
  The class keeps \<^verbatim>\<open>_listeners: Map<key, listener[]>\<close>. The arrays are mutable
  objects: \<^verbatim>\<open>on\<close> pushes onto the array the map holds (in place), \<^verbatim>\<open>off\<close>
  builds a new array with \<^verbatim>\<open>filter\<close> and stores it (or deletes the key), and
  \<^verbatim>\<open>emit\<close> iterates the array object it fetched from the map. What a listener
  does to the emitter while \<^verbatim>\<open>emit\<close> runs therefore depends on aliasing, so the
  arrays live in an explicit store, addressed by \<open>addr\<close>.

  A function value has an identity. A function written by the client is \<open>Client n\<close>;
  the arrow function \<^verbatim>\<open>onceListener\<close> that \<^verbatim>\<open>once\<close> creates is
  \<open>OnceListener n event listener\<close>: the \<open>n\<close>-th closure created, together with the
  two variables it captures.
\<close>

type_synonym key = string
type_synonym addr = nat

datatype fn = Client nat | OnceListener nat key fn

text \<open>
  What the body of a client function does to the emitter, statement by statement. A
  body may register, remove, register once, or throw.
\<close>

datatype op = OpOn key fn | OpOff key fn | OpOnce key fn | OpThrow

type_synonym prog = "nat \<Rightarrow> op list"

record 'a emitter =
  listeners_map :: "key \<rightharpoonup> addr"
  arrays :: "addr \<Rightarrow> fn list"
  next_addr :: addr
  next_closure :: nat
  calls :: "(fn \<times> 'a) list"

definition new_emitter :: "'a emitter" where
  "new_emitter =
     \<lparr>listeners_map = Map.empty, arrays = (\<lambda>_. []), next_addr = 0, next_closure = 0,
      calls = []\<rparr>"

text \<open>
  \<^verbatim>\<open>on\<close>: create an empty array for an absent key, then push onto the array of the
  key (the array object is modified; the map entry stays).
\<close>

definition on :: "key \<Rightarrow> fn \<Rightarrow> 'a emitter \<Rightarrow> 'a emitter" where
  "on event listener e =
     (case listeners_map e event of
        None \<Rightarrow>
          e\<lparr>listeners_map := (listeners_map e)(event \<mapsto> next_addr e),
            arrays := (arrays e)(next_addr e := [listener]),
            next_addr := Suc (next_addr e)\<rparr>
      | Some a \<Rightarrow> e\<lparr>arrays := (arrays e)(a := arrays e a @ [listener])\<rparr>)"

text \<open>
  \<^verbatim>\<open>off\<close>: \<^verbatim>\<open>listeners.filter((l) => l !== listener)\<close> is a new array; it is
  stored under the key when it is not empty, and the key is deleted otherwise. The old
  array object is left as it was.
\<close>

definition off :: "key \<Rightarrow> fn \<Rightarrow> 'a emitter \<Rightarrow> 'a emitter" where
  "off event listener e =
     (case listeners_map e event of
        None \<Rightarrow> e
      | Some a \<Rightarrow>
          (let newListeners = filter (\<lambda>l. l \<noteq> listener) (arrays e a) in
           if length newListeners > 0
           then e\<lparr>listeners_map := (listeners_map e)(event \<mapsto> next_addr e),
                  arrays := (arrays e)(next_addr e := newListeners),
                  next_addr := Suc (next_addr e)\<rparr>
           else e\<lparr>listeners_map := (listeners_map e)(event := None)\<rparr>))"

definition removeAllListeners :: "key option \<Rightarrow> 'a emitter \<Rightarrow> 'a emitter" where
  "removeAllListeners event e =
     (case event of
        None \<Rightarrow> e\<lparr>listeners_map := Map.empty\<rparr>
      | Some k \<Rightarrow> e\<lparr>listeners_map := (listeners_map e)(k := None)\<rparr>)"

text \<open>\<^verbatim>\<open>listeners(event)\<close>: a copy of the key's array, or the empty array.\<close>

definition listeners :: "key \<Rightarrow> 'a emitter \<Rightarrow> fn list" where
  "listeners event e = (case listeners_map e event of None \<Rightarrow> [] | Some a \<Rightarrow> arrays e a)"

definition listenerCount :: "key \<Rightarrow> 'a emitter \<Rightarrow> nat" where
  "listenerCount event e =
     (case listeners_map e event of None \<Rightarrow> 0 | Some a \<Rightarrow> length (arrays e a))"

text \<open>\<^verbatim>\<open>once\<close>: a fresh closure is created on every call and registered with \<^verbatim>\<open>on\<close>.\<close>

definition once :: "key \<Rightarrow> fn \<Rightarrow> 'a emitter \<Rightarrow> 'a emitter" where
  "once event listener e =
     on event (OnceListener (next_closure e) event listener)
       (e\<lparr>next_closure := Suc (next_closure e)\<rparr>)"

text \<open>
  Running the statements of a client body in order. The result says whether the body
  threw (\<open>True\<close>); a throw leaves the rest of the body unexecuted.
\<close>

fun run_ops :: "op list \<Rightarrow> 'a emitter \<Rightarrow> bool \<times> 'a emitter" where
  "run_ops [] e = (False, e)"
| "run_ops (OpOn k l # ops) e = run_ops ops (on k l e)"
| "run_ops (OpOff k l # ops) e = run_ops ops (off k l e)"
| "run_ops (OpOnce k l # ops) e = run_ops ops (once k l e)"
| "run_ops (OpThrow # ops) e = (True, e)"

text \<open>
  Calling a function value with \<open>args\<close>. Every call is appended to the log
  \<open>calls\<close>. \<^verbatim>\<open>onceListener\<close> is
  \<^verbatim>\<open>(...args) => { listener(...args); this.off(event, onceListener); }\<close>:
  when the wrapped listener throws, \<^verbatim>\<open>off\<close> is not reached.
\<close>

fun call :: "prog \<Rightarrow> fn \<Rightarrow> 'a \<Rightarrow> 'a emitter \<Rightarrow> bool \<times> 'a emitter" where
  "call body (Client c) args e = run_ops (body c) (e\<lparr>calls := calls e @ [(Client c, args)]\<rparr>)"
| "call body (OnceListener n event listener) args e =
     (case call body listener args (e\<lparr>calls := calls e @ [(OnceListener n event listener, args)]\<rparr>) of
        (True, e') \<Rightarrow> (True, e')
      | (False, e') \<Rightarrow> (False, off event (OnceListener n event listener) e'))"

text \<open>
  \<^verbatim>\<open>for (const listener of listeners) listener(...args)\<close>: the array iterator
  keeps the array object \<open>a\<close> and an index, and reads the array's length and element
  from the store at every step, so elements pushed during the loop are visited. A
  listener that keeps pushing makes the loop run forever: the loop takes fuel, and
  \<open>None\<close> means the fuel ran out. An exception of a listener ends the loop.
\<close>

fun emit_loop :: "prog \<Rightarrow> nat \<Rightarrow> addr \<Rightarrow> nat \<Rightarrow> 'a \<Rightarrow> 'a emitter \<Rightarrow> (bool \<times> 'a emitter) option" where
  "emit_loop body 0 a i args e = None"
| "emit_loop body (Suc fuel) a i args e =
     (if i < length (arrays e a)
      then (case call body (arrays e a ! i) args e of
              (True, e') \<Rightarrow> Some (True, e')
            | (False, e') \<Rightarrow> emit_loop body fuel a (Suc i) args e')
      else Some (False, e))"

datatype emit_result = Returned bool | Threw

definition emit :: "prog \<Rightarrow> nat \<Rightarrow> key \<Rightarrow> 'a \<Rightarrow> 'a emitter \<Rightarrow> (emit_result \<times> 'a emitter) option" where
  "emit body fuel event args e =
     (case listeners_map e event of
        None \<Rightarrow> Some (Returned False, e)
      | Some a \<Rightarrow>
          (case emit_loop body fuel a 0 args e of
             None \<Rightarrow> None
           | Some (True, e') \<Rightarrow> Some (Threw, e')
           | Some (False, e') \<Rightarrow> Some (Returned True, e')))"

text \<open>
  The states the class can be in: every array the map holds has been allocated, and is
  not empty (\<^verbatim>\<open>on\<close> pushes right after creating one, \<^verbatim>\<open>off\<close> deletes the key
  instead of storing an empty one).
\<close>

definition wf_emitter :: "'a emitter \<Rightarrow> bool" where
  "wf_emitter e =
     (\<forall>k a. listeners_map e k = Some a \<longrightarrow> a < next_addr e \<and> arrays e a \<noteq> [])"

text \<open>A function that, when called, only removes listeners (its own or any other).\<close>

fun is_off :: "op \<Rightarrow> bool" where
  "is_off (OpOff k l) = True"
| "is_off _ = False"

fun removes_only :: "prog \<Rightarrow> fn \<Rightarrow> bool" where
  "removes_only body (Client c) = list_all is_off (body c)"
| "removes_only body (OnceListener n event listener) = removes_only body listener"

text \<open>The calls that one call of a function makes, itself included.\<close>

fun calls_of :: "'a \<Rightarrow> fn \<Rightarrow> (fn \<times> 'a) list" where
  "calls_of args (Client c) = [(Client c, args)]"
| "calls_of args (OnceListener n event listener) =
     (OnceListener n event listener, args) # calls_of args listener"

text \<open>
  A small emitter used to exercise the definitions: four listeners on \<^verbatim>\<open>tick\<close>,
  the third registered with \<^verbatim>\<open>once\<close>. Client 0 removes itself when called,
  client 1 removes client 2, which is registered after it.
\<close>

definition demo_body :: prog where
  "demo_body c = (if c = 0 then [OpOff ''tick'' (Client 0)]
                  else if c = 1 then [OpOff ''tick'' (Client 2)] else [])"

definition demo_emitter :: "nat emitter" where
  "demo_emitter =
     on ''tick'' (Client 2) (once ''tick'' (Client 3) (on ''tick'' (Client 1) (on ''tick'' (Client 0) new_emitter)))"

section \<open>Values\<close>

text \<open>
  The values an observable holds and a task settles with. \<^verbatim>\<open>!==\<close> is the negation of
  identity except on \<^verbatim>\<open>NaN\<close>, which is not identical to itself. \<open>Ref\<close> is a
  reference to an object (an \<^verbatim>\<open>Error\<close>, say); numbers other than \<^verbatim>\<open>NaN\<close> are
  represented by the integers.
\<close>

datatype val = Undefined | Null | Boolean bool | Num int | NaN | Str string | Ref nat

definition strict_ne :: "val \<Rightarrow> val \<Rightarrow> bool" where
  "strict_ne a b = (a \<noteq> b \<or> a = NaN)"

text \<open>What \<^verbatim>\<open>if (x)\<close> takes as true.\<close>

fun truthy :: "val \<Rightarrow> bool" where
  "truthy Undefined = False"
| "truthy Null = False"
| "truthy (Boolean b) = b"
| "truthy (Num n) = (n \<noteq> 0)"
| "truthy NaN = False"
| "truthy (Str s) = (s \<noteq> [])"
| "truthy (Ref r) = True"

section \<open>Observable values, signals, computed values, effects and batches\<close>

text \<open>
  The class \<^verbatim>\<open>ObservableValue\<close> (the module \<^verbatim>\<open>./ObservableValue\<close>, whose text
  follows the timer helpers in \<^verbatim>\<open>src/utils/Timer.ts\<close>), \<^verbatim>\<open>signal\<close> and
  \<^verbatim>\<open>batchUpdate\<close> (\<^verbatim>\<open>src/utils/Signal.ts\<close>), \<^verbatim>\<open>computed\<close>
  (\<^verbatim>\<open>unnamed/part_001\<close>) and \<^verbatim>\<open>effect\<close> (\<^verbatim>\<open>unnamed/part_002\<close>).
  Of the class, the constructor, the getter and the setter of \<^verbatim>\<open>value\<close>,
  \<^verbatim>\<open>updateValue\<close> and \<^verbatim>\<open>subscribe\<close> with the function it returns are
  modelled; \<^verbatim>\<open>subscribeOnce\<close>, which none of the other functions calls, is not (the
  \<^verbatim>\<open>once\<close> it delegates to is part of the first section).

  The functions subscribed to an observable are the client's callbacks and the closures
  the library creates. A callback of the client is an observer: \<open>Subscriber t\<close> records
  that it was called, with which argument, and what every observable's \<^verbatim>\<open>value\<close>
  getter returns at that moment. \<open>Recompute c i observables transform\<close> is the arrow
  function that \<^verbatim>\<open>computed\<close> subscribes to its \<open>i\<close>-th source: it captures the
  new observable \<^verbatim>\<open>computed$\<close> (\<open>c\<close>), the sources and the transform.
  \<open>ExecuteCallback n callback\<close> is the closure \<^verbatim>\<open>executeCallback\<close> of the
  \<open>n\<close>-th call of \<^verbatim>\<open>effect\<close>.
\<close>

datatype listener =
    Subscriber nat
  | Recompute nat nat "nat list" "val list \<Rightarrow> val"
  | ExecuteCallback nat nat

text \<open>
  An \<^verbatim>\<open>ObservableValue\<close> object: the private field \<^verbatim>\<open>_value\<close>, the listeners
  of its emitter's only key \<^verbatim>\<open>change\<close>, and, once \<^verbatim>\<open>signal\<close> has redefined the
  accessor \<^verbatim>\<open>value\<close> on the object, the variable \<^verbatim>\<open>currentValue\<close> of that
  closure. None of the listeners above registers or removes a listener, so the emitter
  of section 1 is a list here: \<^verbatim>\<open>on\<close> appends, \<^verbatim>\<open>off\<close> filters, \<^verbatim>\<open>emit\<close>
  calls the elements in order.
\<close>

record observable =
  value_field :: val
  change_listeners :: "listener list"
  current :: "val option"

datatype event =
    Emitted nat val
  | Notified nat nat val "val list"
  | EffectRan nat "val list"
  | ReadEv nat val

text \<open>
  The objects are addressed by number. \<open>isBatching\<close> and \<open>updateQueue\<close> are the two
  module variables of \<^verbatim>\<open>Signal.ts\<close>; the queue is a \<^verbatim>\<open>Set\<close>, kept in insertion
  order. \<open>trace\<close> is what the observers have recorded.
\<close>

record state =
  objs :: "nat \<Rightarrow> observable"
  next_id :: nat
  isBatching :: bool
  updateQueue :: "nat list"
  next_effect :: nat
  trace :: "event list"

definition init_state :: state where
  "init_state =
     \<lparr>objs = (\<lambda>_. \<lparr>value_field = Undefined, change_listeners = [], current = None\<rparr>),
      next_id = 0, isBatching = False, updateQueue = [], next_effect = 0, trace = []\<rparr>"

text \<open>
  Reading \<^verbatim>\<open>obs.value\<close>: the class getter returns \<^verbatim>\<open>_value\<close>; the getter that
  \<^verbatim>\<open>signal\<close> installs returns \<^verbatim>\<open>currentValue\<close>.
\<close>

definition get_value :: "observable \<Rightarrow> val" where
  "get_value ob = (case current ob of None \<Rightarrow> value_field ob | Some cv \<Rightarrow> cv)"

definition snapshot :: "state \<Rightarrow> val list" where
  "snapshot st = map (\<lambda>ob. get_value (objs st ob)) [0..<next_id st]"

text \<open>\<^verbatim>\<open>updateQueue.add(observable)\<close>.\<close>

definition queue_add :: "nat \<Rightarrow> nat list \<Rightarrow> nat list" where
  "queue_add ob q = (if ob \<in> set q then q else q @ [ob])"

text \<open>
  Writing and notifying. \<open>emit_change\<close> is the loop of \<^verbatim>\<open>emit("change", v)\<close>
  over the listeners of object \<open>ob\<close>; \<open>invoke\<close> calls one listener; \<open>updateValue\<close> is
  the method of that name; \<open>set_value\<close> is the assignment \<^verbatim>\<open>obs.value = v\<close>, which
  runs the class setter or, on a signal, the setter of \<^verbatim>\<open>Signal.ts\<close>.

  A recomputation writes to another observable, whose listeners may recompute in turn;
  nothing in the code bounds the nesting, so the functions take fuel, one unit per nested
  recomputation, and \<open>None\<close> means it ran out.
\<close>

fun emit_change :: "nat \<Rightarrow> nat \<Rightarrow> listener list \<Rightarrow> val \<Rightarrow> state \<Rightarrow> state option"
and invoke :: "nat \<Rightarrow> nat \<Rightarrow> listener \<Rightarrow> val \<Rightarrow> state \<Rightarrow> state option"
and updateValue :: "nat \<Rightarrow> nat \<Rightarrow> val \<Rightarrow> state \<Rightarrow> state option"
and set_value :: "nat \<Rightarrow> nat \<Rightarrow> val \<Rightarrow> state \<Rightarrow> state option"
where
  "emit_change fuel ob [] v st = Some st"
| "emit_change fuel ob (l # ls) v st =
     (case invoke fuel ob l v st of
        None \<Rightarrow> None
      | Some st' \<Rightarrow> emit_change fuel ob ls v st')"
| "invoke fuel ob (Subscriber t) v st =
     Some (st\<lparr>trace := trace st @ [Notified ob t v (snapshot st)]\<rparr>)"
| "invoke fuel ob (ExecuteCallback n cb) v st =
     Some (st\<lparr>trace := trace st @ [EffectRan cb (snapshot st)]\<rparr>)"
| "invoke 0 ob (Recompute c i observables transform) v st = None"
| "invoke (Suc fuel) ob (Recompute c i observables transform) v st =
     set_value fuel c (transform (map (\<lambda>s. get_value (objs st s)) observables)) st"
| "updateValue fuel ob newValue st =
     (if strict_ne newValue (value_field (objs st ob))
      then emit_change fuel ob (change_listeners (objs st ob)) newValue
             (st\<lparr>objs := (objs st)(ob := (objs st ob)\<lparr>value_field := newValue\<rparr>),
                trace := trace st @ [Emitted ob newValue]\<rparr>)
      else Some st)"
| "set_value fuel ob newValue st =
     (case current (objs st ob) of
        None \<Rightarrow>
          (if strict_ne newValue (value_field (objs st ob))
           then emit_change fuel ob (change_listeners (objs st ob)) newValue
                  (st\<lparr>objs := (objs st)(ob := (objs st ob)\<lparr>value_field := newValue\<rparr>),
                     trace := trace st @ [Emitted ob newValue]\<rparr>)
           else Some st)
      | Some currentValue \<Rightarrow>
          (if strict_ne newValue currentValue
           then (if isBatching st
                 then Some (st\<lparr>objs := (objs st)(ob := (objs st ob)\<lparr>current := Some newValue\<rparr>),
                              updateQueue := queue_add ob (updateQueue st)\<rparr>)
                 else updateValue fuel ob newValue
                        (st\<lparr>objs := (objs st)(ob := (objs st ob)\<lparr>current := Some newValue\<rparr>)\<rparr>))
           else Some st))"

text \<open>
  \<^verbatim>\<open>subscribe\<close> and the function it returns. \<^verbatim>\<open>off\<close> compares function
  objects by reference: a client callback is the same object as itself, the closures
  of \<^verbatim>\<open>computed\<close> are told apart by the computed value and the source index they
  were created for, and those of \<^verbatim>\<open>effect\<close> by the call that created them.
\<close>

fun same_listener :: "listener \<Rightarrow> listener \<Rightarrow> bool" where
  "same_listener (Subscriber t) (Subscriber t') = (t = t')"
| "same_listener (Recompute c i observables transform) (Recompute c' i' observables' transform') =
     (c = c' \<and> i = i')"
| "same_listener (ExecuteCallback n cb) (ExecuteCallback n' cb') = (n = n')"
| "same_listener l l' = False"

definition subscribe :: "nat \<Rightarrow> listener \<Rightarrow> state \<Rightarrow> state" where
  "subscribe ob l st =
     st\<lparr>objs := (objs st)(ob := (objs st ob)\<lparr>change_listeners := change_listeners (objs st ob) @ [l]\<rparr>)\<rparr>"

definition unsubscribe :: "nat \<Rightarrow> listener \<Rightarrow> state \<Rightarrow> state" where
  "unsubscribe ob l st =
     st\<lparr>objs := (objs st)(ob := (objs st ob)
          \<lparr>change_listeners := filter (\<lambda>x. \<not> same_listener x l) (change_listeners (objs st ob))\<rparr>)\<rparr>"

text \<open>\<^verbatim>\<open>new ObservableValue(initialValue)\<close>: the new object's number and the state.\<close>

definition new_observable :: "val \<Rightarrow> state \<Rightarrow> nat \<times> state" where
  "new_observable initialValue st =
     (next_id st,
      st\<lparr>objs := (objs st)(next_id st :=
             \<lparr>value_field = initialValue, change_listeners = [], current = None\<rparr>),
         next_id := Suc (next_id st)\<rparr>)"

text \<open>
  \<^verbatim>\<open>signal\<close>. \<^verbatim>\<open>React\<close> is \<^verbatim>\<open>null\<close> in \<^verbatim>\<open>Signal.ts\<close>, so the two branches
  under \<^verbatim>\<open>if (React)\<close> never run. What is left redefines the accessor on the
  object given, or on a new object, with \<^verbatim>\<open>currentValue\<close> starting at the value
  read through the accessor in place. \<^verbatim>\<open>Object.defineProperty\<close> is called without
  \<^verbatim>\<open>configurable\<close>, so the accessor it defines cannot be redefined: passing to
  \<^verbatim>\<open>signal\<close> an object that is a signal already throws a \<^verbatim>\<open>TypeError\<close> and
  leaves the object as it is.
\<close>

datatype type_error = TypeError string

definition signal_of :: "nat \<Rightarrow> state \<Rightarrow> type_error + state" where
  "signal_of ob st =
     (case current (objs st ob) of
        Some currentValue \<Rightarrow> Inl (TypeError ''Cannot redefine property: value'')
      | None \<Rightarrow>
          Inr (st\<lparr>objs := (objs st)(ob := (objs st ob)\<lparr>current := Some (value_field (objs st ob))\<rparr>)\<rparr>))"

definition signal :: "val \<Rightarrow> state \<Rightarrow> nat \<times> state" where
  "signal initialValue st =
     (case new_observable initialValue st of (ob, st') \<Rightarrow>
        (ob, st'\<lparr>objs := (objs st')(ob := (objs st' ob)\<lparr>current := Some initialValue\<rparr>)\<rparr>))"

text \<open>
  \<^verbatim>\<open>computed\<close>: the initial value is computed from the sources, a new
  \<^verbatim>\<open>ObservableValue\<close> holds it, and one closure per source is subscribed, in the
  order of the array. The result is the new object, the list behind
  \<^verbatim>\<open>unsubscribeSources\<close>, and the state.
\<close>

fun subscribe_all :: "(nat \<times> listener) list \<Rightarrow> state \<Rightarrow> state" where
  "subscribe_all [] st = st"
| "subscribe_all ((ob, l) # rest) st = subscribe_all rest (subscribe ob l st)"

fun unsubscribe_all :: "(nat \<times> listener) list \<Rightarrow> state \<Rightarrow> state" where
  "unsubscribe_all [] st = st"
| "unsubscribe_all ((ob, l) # rest) st = unsubscribe_all rest (unsubscribe ob l st)"

definition computed :: "nat list \<Rightarrow> (val list \<Rightarrow> val) \<Rightarrow> state \<Rightarrow> nat \<times> (nat \<times> listener) list \<times> state" where
  "computed observables transform st =
     (let initialValues = map (\<lambda>s. get_value (objs st s)) observables in
      case new_observable (transform initialValues) st of (c, st') \<Rightarrow>
        (let subs = map (\<lambda>(s, i). (s, Recompute c i observables transform))
                      (zip observables [0..<length observables])
         in (c, subs, subscribe_all subs st')))"

definition unsubscribeSources :: "(nat \<times> listener) list \<Rightarrow> state \<Rightarrow> state" where
  "unsubscribeSources subs st = unsubscribe_all subs st"

text \<open>
  \<^verbatim>\<open>effect\<close>. The argument \<^verbatim>\<open>dependencies\<close> is anything the caller passes: not
  an array, or an array whose elements are \<^verbatim>\<open>ObservableValue\<close> instances or other
  values. The loop subscribes \<^verbatim>\<open>executeCallback\<close> to one dependency after the
  other and throws at the first element that is not an instance, leaving the state as
  it is by then. On success the result is the list the returned cleanup function walks.
\<close>

datatype dep = Instance nat | Other

datatype dependencies = NotAnArray | Array "dep list"

fun effect_loop :: "listener \<Rightarrow> dep list \<Rightarrow> (nat \<times> listener) list \<Rightarrow> state \<Rightarrow>
    (type_error + (nat \<times> listener) list) \<times> state" where
  "effect_loop executeCallback [] unsubscribeFunctions st = (Inr unsubscribeFunctions, st)"
| "effect_loop executeCallback (Other # ds) unsubscribeFunctions st =
     (Inl (TypeError ''Each dependency must be an instance of ObservableValue.''), st)"
| "effect_loop executeCallback (Instance ob # ds) unsubscribeFunctions st =
     effect_loop executeCallback ds (unsubscribeFunctions @ [(ob, executeCallback)])
       (subscribe ob executeCallback st)"

definition effect :: "nat \<Rightarrow> dependencies \<Rightarrow> state \<Rightarrow> (type_error + (nat \<times> listener) list) \<times> state" where
  "effect callback dependencies st =
     (case dependencies of
        NotAnArray \<Rightarrow>
          (Inl (TypeError ''Dependencies must be an array of ObservableValue instances.''), st)
      | Array ds \<Rightarrow>
          (if length ds = 0 then (Inr [], st)
           else effect_loop (ExecuteCallback (next_effect st) callback) ds []
                  (st\<lparr>next_effect := Suc (next_effect st)\<rparr>)))"

definition cleanup :: "(nat \<times> listener) list \<Rightarrow> state \<Rightarrow> state" where
  "cleanup unsubscribeFunctions st = unsubscribe_all unsubscribeFunctions st"

text \<open>
  \<^verbatim>\<open>batchUpdate\<close>. The function passed to it is client code: a sequence of
  assignments to observables, reads of their value, nested calls of
  \<^verbatim>\<open>batchUpdate\<close>, and possibly a \<^verbatim>\<open>throw\<close> of some value. Running it gives whether it threw
  and the state it left. The \<^verbatim>\<open>finally\<close> block runs on both exits: it clears the
  flag, calls \<^verbatim>\<open>updateValue(observable.value)\<close> on every member of the queue, and
  clears the queue; an exception of the body propagates after it. No listener of this
  model adds to the queue while the flag is clear, so the loop over the set is a loop
  over its members at entry. The client's callbacks return here, so the flush runs to
  its end; the next subsection has the functions for client code that throws.
\<close>

datatype stmt = Write nat val | Read nat | Batch "stmt list" | Throw val

fun flush :: "nat \<Rightarrow> nat list \<Rightarrow> state \<Rightarrow> state option" where
  "flush fuel [] st = Some st"
| "flush fuel (ob # q) st =
     (case updateValue fuel ob (get_value (objs st ob)) st of
        None \<Rightarrow> None
      | Some st' \<Rightarrow> flush fuel q st')"

fun exec_stmt :: "nat \<Rightarrow> stmt \<Rightarrow> state \<Rightarrow> (bool \<times> state) option"
and exec :: "nat \<Rightarrow> stmt list \<Rightarrow> state \<Rightarrow> (bool \<times> state) option"
and batchUpdate :: "nat \<Rightarrow> stmt list \<Rightarrow> state \<Rightarrow> (bool \<times> state) option"
where
  "exec_stmt fuel (Write ob v) st =
     (case set_value fuel ob v st of None \<Rightarrow> None | Some st' \<Rightarrow> Some (False, st'))"
| "exec_stmt fuel (Read ob) st =
     Some (False, st\<lparr>trace := trace st @ [ReadEv ob (get_value (objs st ob))]\<rparr>)"
| "exec_stmt fuel (Batch updateFn) st = batchUpdate fuel updateFn st"
| "exec_stmt fuel (Throw e) st = Some (True, st)"
| "exec fuel [] st = Some (False, st)"
| "exec fuel (s # ss) st =
     (case exec_stmt fuel s st of
        None \<Rightarrow> None
      | Some (True, st') \<Rightarrow> Some (True, st')
      | Some (False, st') \<Rightarrow> exec fuel ss st')"
| "batchUpdate fuel updateFn st =
     (case exec fuel updateFn (st\<lparr>isBatching := True\<rparr>) of
        None \<Rightarrow> None
      | Some (threw, st1) \<Rightarrow>
          (case flush fuel (updateQueue st1) (st1\<lparr>isBatching := False\<rparr>) of
             None \<Rightarrow> None
           | Some st2 \<Rightarrow> Some (threw, st2\<lparr>updateQueue := []\<rparr>)))"

text \<open>
  The statements of a body that end it with an exception: a \<^verbatim>\<open>throw\<close> of its own,
  or one inside a nested batch, which \<^verbatim>\<open>batchUpdate\<close> lets through.
\<close>

fun throws_stmt :: "stmt \<Rightarrow> bool"
and throws :: "stmt list \<Rightarrow> bool"
where
  "throws_stmt (Write ob v) = False"
| "throws_stmt (Read ob) = False"
| "throws_stmt (Batch updateFn) = throws updateFn"
| "throws_stmt (Throw e) = True"
| "throws [] = False"
| "throws (s # ss) = (throws_stmt s \<or> throws ss)"

subsection \<open>Client code that throws\<close>

text \<open>
  The functions above take the code of the client to return: the callbacks it
  subscribes, the callbacks of its effects, its transforms. None of the library's
  functions catches an exception, so when client code throws, the exception leaves the
  loop of \<^verbatim>\<open>emit\<close>, the setter or \<^verbatim>\<open>updateValue\<close> that called it, every closure
  of \<^verbatim>\<open>computed\<close> on the way, and the \<^verbatim>\<open>finally\<close> block of \<^verbatim>\<open>batchUpdate\<close>
  when it is thrown during the flush, in which case \<^verbatim>\<open>updateQueue.clear()\<close> is not
  reached and the exception replaces the one of the body.

  The functions below are the same functions with this path. \<open>client l v st\<close> says
  whether the client code that closure \<open>l\<close> runs throws, and what, when the closure is
  called with \<open>v\<close> in state \<open>st\<close>: the body of a subscribed callback, the callback of
  an effect (\<^verbatim>\<open>executeCallback\<close> handles a rejected promise, not a \<^verbatim>\<open>throw\<close>), the
  transform of a computed value, which throws before anything is assigned. A result is
  the exception thrown, if any, and the state left. With client code that never throws
  these are the functions above (lemmas \<open>returning_agrees\<close> and \<open>returning_exec_agrees\<close>).
\<close>

type_synonym client = "listener \<Rightarrow> val \<Rightarrow> state \<Rightarrow> val option"

definition returning :: client where
  "returning l v st = None"

fun emit_change_exn :: "client \<Rightarrow> nat \<Rightarrow> nat \<Rightarrow> listener list \<Rightarrow> val \<Rightarrow> state \<Rightarrow> (val option \<times> state) option"
and invoke_exn :: "client \<Rightarrow> nat \<Rightarrow> nat \<Rightarrow> listener \<Rightarrow> val \<Rightarrow> state \<Rightarrow> (val option \<times> state) option"
and updateValue_exn :: "client \<Rightarrow> nat \<Rightarrow> nat \<Rightarrow> val \<Rightarrow> state \<Rightarrow> (val option \<times> state) option"
and set_value_exn :: "client \<Rightarrow> nat \<Rightarrow> nat \<Rightarrow> val \<Rightarrow> state \<Rightarrow> (val option \<times> state) option"
where
  "emit_change_exn client fuel ob [] v st = Some (None, st)"
| "emit_change_exn client fuel ob (l # ls) v st =
     (case invoke_exn client fuel ob l v st of
        None \<Rightarrow> None
      | Some (Some e, st') \<Rightarrow> Some (Some e, st')
      | Some (None, st') \<Rightarrow> emit_change_exn client fuel ob ls v st')"
| "invoke_exn client fuel ob (Subscriber t) v st =
     Some (client (Subscriber t) v st, st\<lparr>trace := trace st @ [Notified ob t v (snapshot st)]\<rparr>)"
| "invoke_exn client fuel ob (ExecuteCallback n cb) v st =
     Some (client (ExecuteCallback n cb) v st, st\<lparr>trace := trace st @ [EffectRan cb (snapshot st)]\<rparr>)"
| "invoke_exn client 0 ob (Recompute c i observables transform) v st = None"
| "invoke_exn client (Suc fuel) ob (Recompute c i observables transform) v st =
     (case client (Recompute c i observables transform) v st of
        Some e \<Rightarrow> Some (Some e, st)
      | None \<Rightarrow>
          set_value_exn client fuel c (transform (map (\<lambda>s. get_value (objs st s)) observables)) st)"
| "updateValue_exn client fuel ob newValue st =
     (if strict_ne newValue (value_field (objs st ob))
      then emit_change_exn client fuel ob (change_listeners (objs st ob)) newValue
             (st\<lparr>objs := (objs st)(ob := (objs st ob)\<lparr>value_field := newValue\<rparr>),
                trace := trace st @ [Emitted ob newValue]\<rparr>)
      else Some (None, st))"
| "set_value_exn client fuel ob newValue st =
     (case current (objs st ob) of
        None \<Rightarrow>
          (if strict_ne newValue (value_field (objs st ob))
           then emit_change_exn client fuel ob (change_listeners (objs st ob)) newValue
                  (st\<lparr>objs := (objs st)(ob := (objs st ob)\<lparr>value_field := newValue\<rparr>),
                     trace := trace st @ [Emitted ob newValue]\<rparr>)
           else Some (None, st))
      | Some currentValue \<Rightarrow>
          (if strict_ne newValue currentValue
           then (if isBatching st
                 then Some (None, st\<lparr>objs := (objs st)(ob := (objs st ob)\<lparr>current := Some newValue\<rparr>),
                                    updateQueue := queue_add ob (updateQueue st)\<rparr>)
                 else updateValue_exn client fuel ob newValue
                        (st\<lparr>objs := (objs st)(ob := (objs st ob)\<lparr>current := Some newValue\<rparr>)\<rparr>))
           else Some (None, st)))"

text \<open>
  The loop of the \<^verbatim>\<open>finally\<close> block ends at the first call of \<^verbatim>\<open>updateValue\<close>
  that throws. \<^verbatim>\<open>batchUpdate\<close> then ends with that exception, whatever the body did,
  with the flag cleared and the queue as it is; otherwise it clears the queue and ends
  as the body did.
\<close>

fun flush_exn :: "client \<Rightarrow> nat \<Rightarrow> nat list \<Rightarrow> state \<Rightarrow> (val option \<times> state) option" where
  "flush_exn client fuel [] st = Some (None, st)"
| "flush_exn client fuel (ob # q) st =
     (case updateValue_exn client fuel ob (get_value (objs st ob)) st of
        None \<Rightarrow> None
      | Some (Some e, st') \<Rightarrow> Some (Some e, st')
      | Some (None, st') \<Rightarrow> flush_exn client fuel q st')"

fun exec_stmt_exn :: "client \<Rightarrow> nat \<Rightarrow> stmt \<Rightarrow> state \<Rightarrow> (val option \<times> state) option"
and exec_exn :: "client \<Rightarrow> nat \<Rightarrow> stmt list \<Rightarrow> state \<Rightarrow> (val option \<times> state) option"
and batchUpdate_exn :: "client \<Rightarrow> nat \<Rightarrow> stmt list \<Rightarrow> state \<Rightarrow> (val option \<times> state) option"
where
  "exec_stmt_exn client fuel (Write ob v) st = set_value_exn client fuel ob v st"
| "exec_stmt_exn client fuel (Read ob) st =
     Some (None, st\<lparr>trace := trace st @ [ReadEv ob (get_value (objs st ob))]\<rparr>)"
| "exec_stmt_exn client fuel (Batch updateFn) st = batchUpdate_exn client fuel updateFn st"
| "exec_stmt_exn client fuel (Throw e) st = Some (Some e, st)"
| "exec_exn client fuel [] st = Some (None, st)"
| "exec_exn client fuel (s # ss) st =
     (case exec_stmt_exn client fuel s st of
        None \<Rightarrow> None
      | Some (Some e, st') \<Rightarrow> Some (Some e, st')
      | Some (None, st') \<Rightarrow> exec_exn client fuel ss st')"
| "batchUpdate_exn client fuel updateFn st =
     (case exec_exn client fuel updateFn (st\<lparr>isBatching := True\<rparr>) of
        None \<Rightarrow> None
      | Some (completion, st1) \<Rightarrow>
          (case flush_exn client fuel (updateQueue st1) (st1\<lparr>isBatching := False\<rparr>) of
             None \<Rightarrow> None
           | Some (Some e, st2) \<Rightarrow> Some (Some e, st2)
           | Some (None, st2) \<Rightarrow> Some (completion, st2\<lparr>updateQueue := []\<rparr>)))"

subsection \<open>The states the functions build\<close>

text \<open>
  \<^verbatim>\<open>computed\<close> subscribes its closures to observables that exist already and
  makes them write to the observable it has just created, so a closure registered on
  object \<open>p\<close> writes to an object with a larger number.
\<close>

fun wf_listener :: "nat \<Rightarrow> nat \<Rightarrow> listener \<Rightarrow> bool" where
  "wf_listener n p (Recompute c i observables transform) = (p < c \<and> c < n)"
| "wf_listener n p (Subscriber t) = True"
| "wf_listener n p (ExecuteCallback k cb) = True"

definition wf_state :: "state \<Rightarrow> bool" where
  "wf_state st =
     list_all (\<lambda>p. list_all (wf_listener (next_id st) p) (change_listeners (objs st p)))
       [0..<next_id st]"

text \<open>
  An observable is in sync when its accessor returns what \<^verbatim>\<open>_value\<close> holds, that
  is, what its listeners were last told. A signal is out of sync between a write inside
  a batch and the flush.
\<close>

definition synced_at :: "state \<Rightarrow> nat \<Rightarrow> bool" where
  "synced_at st p = (get_value (objs st p) = value_field (objs st p))"

definition synced :: "state \<Rightarrow> bool" where
  "synced st = list_all (synced_at st) [0..<next_id st]"

text \<open>
  \<open>c\<close> is the computed value of \<open>observables\<close> under \<open>transform\<close>: its sources were
  created before it, and the closures that write to it are those of its own
  \<^verbatim>\<open>computed\<close> call.
\<close>

fun recomputes :: "nat \<Rightarrow> nat list \<Rightarrow> (val list \<Rightarrow> val) \<Rightarrow> listener \<Rightarrow> bool" where
  "recomputes c observables transform (Recompute c' i observables' transform') =
     (if c' = c then observables' = observables \<and> transform' = transform else True)"
| "recomputes c observables transform (Subscriber t) = True"
| "recomputes c observables transform (ExecuteCallback k cb) = True"

definition is_computed :: "state \<Rightarrow> nat \<Rightarrow> nat list \<Rightarrow> (val list \<Rightarrow> val) \<Rightarrow> bool" where
  "is_computed st c observables transform =
     (c < next_id st \<and> list_all (\<lambda>s. s < c) observables \<and>
      list_all (\<lambda>p. list_all (recomputes c observables transform) (change_listeners (objs st p)))
        [0..<next_id st])"

text \<open>
  What a subscriber of \<open>c\<close> sees when it is called: its argument is the value of \<open>c\<close>,
  and the value of \<open>c\<close> is the transform of the values of the sources.
\<close>

fun consistent_event :: "nat \<Rightarrow> nat list \<Rightarrow> (val list \<Rightarrow> val) \<Rightarrow> event \<Rightarrow> bool" where
  "consistent_event c observables transform (Notified ob t v snap) =
     (if ob = c then v = snap ! c \<and> snap ! c = transform (map (\<lambda>s. snap ! s) observables) else True)"
| "consistent_event c observables transform (Emitted ob v) = True"
| "consistent_event c observables transform (EffectRan cb snap) = True"
| "consistent_event c observables transform (ReadEv ob v) = True"

text \<open>
  What happened at one observable, read off the trace: \<open>(None, v)\<close> for
  \<^verbatim>\<open>emit("change", v)\<close> on its emitter, \<open>(Some t, v)\<close> for a call of its
  subscriber \<open>t\<close> with \<open>v\<close>.
\<close>

fun event_at :: "nat \<Rightarrow> event \<Rightarrow> (nat option \<times> val) option" where
  "event_at ob (Emitted q v) = (if q = ob then Some (None, v) else None)"
| "event_at ob (Notified q t v snap) = (if q = ob then Some (Some t, v) else None)"
| "event_at ob (EffectRan cb snap) = None"
| "event_at ob (ReadEv q v) = None"

definition events_at :: "nat \<Rightarrow> event list \<Rightarrow> (nat option \<times> val) list" where
  "events_at ob evs = List.map_filter (event_at ob) evs"

fun subscribers :: "listener list \<Rightarrow> nat list" where
  "subscribers [] = []"
| "subscribers (Subscriber t # ls) = t # subscribers ls"
| "subscribers (l # ls) = subscribers ls"

text \<open>One round of notification: the emit, then every subscriber in order.\<close>

definition round :: "listener list \<Rightarrow> val \<Rightarrow> (nat option \<times> val) list" where
  "round ls v = (None, v) # map (\<lambda>t. (Some t, v)) (subscribers ls)"

subsection \<open>What a call changes\<close>

text \<open>
  No function of this section registers or removes a listener, creates an object, or
  changes whether an object is a signal; the batching flag is only changed by
  \<^verbatim>\<open>batchUpdate\<close>, and the queue only grows, during a batch.
\<close>

definition shape :: "state \<Rightarrow> state \<Rightarrow> bool" where
  "shape st st' =
     (next_id st' = next_id st \<and> isBatching st' = isBatching st \<and>
      next_effect st' = next_effect st \<and>
      (\<forall>q. change_listeners (objs st' q) = change_listeners (objs st q) \<and>
           (current (objs st' q) = None) = (current (objs st q) = None)) \<and>
      (\<not> isBatching st \<longrightarrow> updateQueue st' = updateQueue st))"

text \<open>
  A call on object \<open>ob\<close> leaves the objects below \<open>lo\<close> as they are, records the
  events \<open>hs\<close> at \<open>ob\<close> and none at the objects below it, keeps the other objects
  in sync when no batch is open, and queues only signals from \<open>lo\<close> on.
\<close>

definition rel :: "nat \<Rightarrow> nat \<Rightarrow> (nat option \<times> val) list \<Rightarrow> state \<Rightarrow> state \<Rightarrow> bool" where
  "rel lo ob hs st st' =
     (shape st st' \<and> (\<forall>q<lo. objs st' q = objs st q) \<and>
      (\<exists>evs. trace st' = trace st @ evs \<and> events_at ob evs = hs \<and> (\<forall>q<ob. events_at q evs = [])) \<and>
      (\<not> isBatching st \<longrightarrow> (\<forall>p. p \<noteq> ob \<longrightarrow> synced_at st p \<longrightarrow> synced_at st' p)) \<and>
      (\<forall>q \<in> set (updateQueue st'). q \<in> set (updateQueue st) \<or>
         (lo \<le> q \<and> q < next_id st \<and> current (objs st q) \<noteq> None)))"

text \<open>
  A write to \<open>ob\<close> notifies at once when \<open>ob\<close> is a plain \<^verbatim>\<open>ObservableValue\<close>,
  or a signal that is in sync while no batch is open.
\<close>

definition direct :: "state \<Rightarrow> nat \<Rightarrow> bool" where
  "direct st ob = (current (objs st ob) = None \<or> (synced_at st ob \<and> \<not> isBatching st))"

text \<open>
  A write to \<open>ob\<close> is deferred when \<open>ob\<close> is a signal and a batch is open: the setter
  stores the value and adds the signal to the queue.
\<close>

definition deferred :: "state \<Rightarrow> nat \<Rightarrow> bool" where
  "deferred st ob = (current (objs st ob) \<noteq> None \<and> isBatching st)"

definition srcvals :: "state \<Rightarrow> nat list \<Rightarrow> val list" where
  "srcvals st srcs = map (\<lambda>s. get_value (objs st s)) srcs"

text \<open>
  The same for the trace of a computed value \<open>c\<close>: every event recorded is
  consistent for \<open>c\<close>.
\<close>

definition step :: "nat \<Rightarrow> nat list \<Rightarrow> (val list \<Rightarrow> val) \<Rightarrow> nat \<Rightarrow> state \<Rightarrow> state \<Rightarrow> bool" where
  "step c srcs f lo st st' =
     (shape st st' \<and> (\<forall>q<lo. objs st' q = objs st q) \<and>
      (\<exists>evs. trace st' = trace st @ evs \<and> list_all (consistent_event c srcs f) evs))"

text \<open>
  \<open>c\<close> is up to date when its value is the transform of the values of its sources,
  and subscribed when every source still holds a closure that recomputes \<open>c\<close>
  (\<^verbatim>\<open>unsubscribeSources\<close> has not been called).
\<close>

fun targets :: "nat \<Rightarrow> listener \<Rightarrow> bool" where
  "targets c (Recompute c' i observables transform) = (c' = c)"
| "targets c (Subscriber t) = False"
| "targets c (ExecuteCallback k cb) = False"

definition subscribed :: "state \<Rightarrow> nat \<Rightarrow> nat list \<Rightarrow> bool" where
  "subscribed st c observables =
     list_all (\<lambda>s. list_ex (targets c) (change_listeners (objs st s))) observables"

definition consistent :: "state \<Rightarrow> nat \<Rightarrow> nat list \<Rightarrow> (val list \<Rightarrow> val) \<Rightarrow> bool" where
  "consistent st c observables transform =
     (get_value (objs st c) = transform (srcvals st observables))"

definition ok :: "nat \<Rightarrow> nat list \<Rightarrow> (val list \<Rightarrow> val) \<Rightarrow> nat \<Rightarrow> state \<Rightarrow> state option \<Rightarrow> bool \<Rightarrow> bool" where
  "ok c srcs f lo st r k =
     (\<exists>st'. r = Some st' \<and> step c srcs f lo st st' \<and> synced st' \<and>
        (subscribed st c srcs \<longrightarrow> k \<longrightarrow> consistent st' c srcs f))"

definition ready :: "nat \<Rightarrow> nat list \<Rightarrow> (val list \<Rightarrow> val) \<Rightarrow> nat \<Rightarrow> nat \<Rightarrow> state \<Rightarrow> bool" where
  "ready c srcs f fuel ob st =
     (wf_state st \<and> is_computed st c srcs f \<and> \<not> isBatching st \<and> ob < next_id st \<and>
      next_id st \<le> fuel + Suc ob)"

text \<open>
  \<^verbatim>\<open>computed\<close> returns a plain \<^verbatim>\<open>ObservableValue\<close>; it becomes a signal only if
  the client passes it to \<^verbatim>\<open>signal\<close>. \<open>plain_targets\<close> says that no closure of
  \<^verbatim>\<open>computed\<close> writes to a signal, that is, no computed value has been passed to
  \<^verbatim>\<open>signal\<close>.
\<close>

fun plain_target :: "state \<Rightarrow> listener \<Rightarrow> bool" where
  "plain_target st (Recompute c i observables transform) = (current (objs st c) = None)"
| "plain_target st (Subscriber t) = True"
| "plain_target st (ExecuteCallback n cb) = True"

definition plain_targets :: "state \<Rightarrow> bool" where
  "plain_targets st =
     list_all (\<lambda>p. list_all (plain_target st) (change_listeners (objs st p))) [0..<next_id st]"

subsection \<open>An example graph\<close>

text \<open>
  A signal \<open>a = 1\<close> (object 0), a plain observable \<open>b = 2\<close> (object 1),
  \<open>c = computed([a, b], +)\<close> (object 2) and \<open>d = computed([a, c], +)\<close> (object 3),
  with a subscriber on \<open>c\<close>, then one on \<open>d\<close>, then one on \<open>a\<close>.
\<close>

definition add_nums :: "val list \<Rightarrow> val" where
  "add_nums vs = (case vs of [Num x, Num y] \<Rightarrow> Num (x + y) | _ \<Rightarrow> Undefined)"

definition demo_graph :: state where
  "demo_graph =
     \<lparr>objs = (\<lambda>_. \<lparr>value_field = Undefined, change_listeners = [], current = None\<rparr>)
        (0 := \<lparr>value_field = Num 1,
               change_listeners = [Recompute 2 0 [0, 1] add_nums, Recompute 3 0 [0, 2] add_nums, Subscriber 2],
               current = Some (Num 1)\<rparr>,
         1 := \<lparr>value_field = Num 2, change_listeners = [Recompute 2 1 [0, 1] add_nums], current = None\<rparr>,
         2 := \<lparr>value_field = Num 3,
               change_listeners = [Recompute 3 1 [0, 2] add_nums, Subscriber 0], current = None\<rparr>,
         3 := \<lparr>value_field = Num 4, change_listeners = [Subscriber 1], current = None\<rparr>),
      next_id = 4, isBatching = False, updateQueue = [], next_effect = 0, trace = []\<rparr>"

subsection \<open>Batches of writes to one signal\<close>

text \<open>
  The state inside a batch: the flag set, the signal \<open>s\<close> holding \<open>cur\<close> in
  \<^verbatim>\<open>currentValue\<close>, the queue \<open>q\<close> and the trace \<open>tr\<close>. \<open>changes held vs\<close> says
  that one of the writes \<open>vs\<close> stores a value that is \<^verbatim>\<open>!==\<close> the value held
  before it.
\<close>

definition in_batch :: "state \<Rightarrow> nat \<Rightarrow> val \<Rightarrow> nat list \<Rightarrow> event list \<Rightarrow> state" where
  "in_batch st s cur q tr =
     st\<lparr>objs := (objs st)(s := (objs st s)\<lparr>current := Some cur\<rparr>), isBatching := True,
        updateQueue := q, trace := tr\<rparr>"

definition changes :: "val \<Rightarrow> val list \<Rightarrow> bool" where
  "changes held vs = list_ex (\<lambda>(new, held). strict_ne new held) (zip vs (held # vs))"

subsection \<open>Bodies of batches\<close>

text \<open>
  A body refers to observables that exist; the objects and listeners are the same
  before and after a body; the members of the queue exist.
\<close>

fun stmt_ok :: "nat \<Rightarrow> stmt \<Rightarrow> bool"
and stmts_ok :: "nat \<Rightarrow> stmt list \<Rightarrow> bool"
where
  "stmt_ok n (Write ob v) = (ob < n)"
| "stmt_ok n (Read ob) = (ob < n)"
| "stmt_ok n (Batch updateFn) = stmts_ok n updateFn"
| "stmt_ok n (Throw e) = True"
| "stmts_ok n [] = True"
| "stmts_ok n (s # ss) = (stmt_ok n s \<and> stmts_ok n ss)"

definition static :: "state \<Rightarrow> state \<Rightarrow> bool" where
  "static st st' =
     (next_id st' = next_id st \<and> (\<forall>q. change_listeners (objs st' q) = change_listeners (objs st q)))"

definition queue_ok :: "state \<Rightarrow> bool" where
  "queue_ok st = list_all (\<lambda>q. q < next_id st) (updateQueue st)"

subsection \<open>Two more examples\<close>

text \<open>
  A signal holding 0 with one subscriber. And two signals \<open>x\<close> and \<open>y\<close> holding 0,
  each with one subscriber, with client code in which the subscriber of \<open>x\<close> throws
  and everything else returns.
\<close>

definition demo_signal :: state where
  "demo_signal =
     \<lparr>objs = (\<lambda>_. \<lparr>value_field = Undefined, change_listeners = [], current = None\<rparr>)
        (0 := \<lparr>value_field = Num 0, change_listeners = [Subscriber 7], current = Some (Num 0)\<rparr>),
      next_id = 1, isBatching = False, updateQueue = [], next_effect = 0, trace = []\<rparr>"

definition demo_pair :: state where
  "demo_pair =
     \<lparr>objs = (\<lambda>_. \<lparr>value_field = Undefined, change_listeners = [], current = None\<rparr>)
        (0 := \<lparr>value_field = Num 0, change_listeners = [Subscriber 0], current = Some (Num 0)\<rparr>,
         1 := \<lparr>value_field = Num 0, change_listeners = [Subscriber 1], current = Some (Num 0)\<rparr>),
      next_id = 2, isBatching = False, updateQueue = [], next_effect = 0, trace = []\<rparr>"


section \<open>Tasks: \<^verbatim>\<open>utils/Task.ts\<close>\<close>

text \<open>
  \<^verbatim>\<open>Task\<close> extends the small \<^verbatim>\<open>EventEmitter\<close> of the same file, which keeps a
  \<^verbatim>\<open>Set\<close> of listeners per event name. The events of a task are \<^verbatim>\<open>start\<close>,
  \<^verbatim>\<open>done\<close>, \<^verbatim>\<open>error\<close> and \<^verbatim>\<open>data\<close>; all but \<^verbatim>\<open>data\<close> carry the
  task itself as first argument, which the model leaves implicit. An \<^verbatim>\<open>error\<close>
  event carries either the reason the work function rejected with, or the
  \<^verbatim>\<open>new Error("abborted")\<close> that \<^verbatim>\<open>abort\<close> creates.
\<close>

datatype task_key = KStart | KDone | KError | KData

datatype failure = Reason val | AbortError string

datatype payload = PStart | PDone val | PError failure | PData val

fun key_of :: "payload \<Rightarrow> task_key" where
  "key_of PStart = KStart"
| "key_of (PDone r) = KDone"
| "key_of (PError e) = KError"
| "key_of (PData d) = KData"

datatype task_log = Emits payload | Calls nat payload

record task =
  executed :: bool
  has_error :: bool
  result :: "val option"
  aborted :: bool
  eventListeners :: "task_key \<Rightarrow> nat list"
  task_trace :: "task_log list"

text \<open>\<^verbatim>\<open>Task.create(func)\<close>: nothing executed, no result, a fresh \<^verbatim>\<open>AbortController\<close>.\<close>

definition create :: task where
  "create =
     \<lparr>executed = False, has_error = False, result = None, aborted = False,
      eventListeners = (\<lambda>_. []), task_trace = []\<rparr>"

definition task_on :: "task_key \<Rightarrow> nat \<Rightarrow> task \<Rightarrow> task" where
  "task_on eventName listener t =
     t\<lparr>eventListeners := (eventListeners t)(eventName := queue_add listener (eventListeners t eventName))\<rparr>"

text \<open>\<^verbatim>\<open>emit\<close>: every listener of the event's set is called with the arguments.\<close>

definition task_emit :: "payload \<Rightarrow> task \<Rightarrow> task" where
  "task_emit p t =
     t\<lparr>task_trace := task_trace t @ Emits p # map (\<lambda>l. Calls l p) (eventListeners t (key_of p))\<rparr>"

text \<open>
  \<^verbatim>\<open>abort(safe?)\<close>; an omitted \<^verbatim>\<open>safe\<close> is \<^verbatim>\<open>undefined\<close>, which
  \<^verbatim>\<open>if (safe)\<close> takes as false.
\<close>

definition abort :: "bool \<Rightarrow> task \<Rightarrow> task" where
  "abort safe t =
     (let t1 = t\<lparr>executed := True\<rparr> in
      if safe then t1\<lparr>aborted := True\<rparr>
      else task_emit (PError (AbortError ''abborted'')) (t1\<lparr>has_error := True, aborted := True\<rparr>))"

text \<open>
  The work function receives the task and returns a promise. Between the call and the
  settlement of the promise the task can be acted upon, by the work function itself or
  by other code that runs while \<^verbatim>\<open>run\<close> awaits: \<^verbatim>\<open>data\<close> events and calls of
  \<^verbatim>\<open>abort\<close>. The promise then fulfils with a result or rejects with a reason, which
  is any value; a work function that is not \<^verbatim>\<open>async\<close> can also throw before
  returning a promise.
\<close>

datatype action = EmitData val | Abort bool

datatype promise = Resolves val | Rejects val

datatype outcome = Returns promise | ThrowsSync val

fun act :: "action \<Rightarrow> task \<Rightarrow> task" where
  "act (EmitData d) t = task_emit (PData d) t"
| "act (Abort safe) t = abort safe t"

text \<open>
  \<^verbatim>\<open>catchError(promise)\<close> with \<^verbatim>\<open>errors\<close> omitted, as \<^verbatim>\<open>run\<close> calls it,
  followed by \<^verbatim>\<open>const [error, result] = ...\<close>: a fulfilled promise gives
  \<^verbatim>\<open>[undefined, data]\<close>, a rejected one \<^verbatim>\<open>[error]\<close>, whose second element
  reads as \<^verbatim>\<open>undefined\<close>.
\<close>

fun catchError :: "promise \<Rightarrow> val \<times> val" where
  "catchError (Resolves data) = (Undefined, data)"
| "catchError (Rejects error) = (error, Undefined)"

text \<open>
  \<^verbatim>\<open>run\<close>. The promise it returns rejects with a reason (\<open>Inl\<close>) or fulfils with
  the result (\<open>Inr\<close>). \<open>settle\<close> is the part of \<^verbatim>\<open>run\<close> after the
  \<^verbatim>\<open>await\<close>; a work function that throws before it returns a promise ends
  \<^verbatim>\<open>run\<close> before \<^verbatim>\<open>catchError\<close> is called.
\<close>

definition settle :: "val \<times> val \<Rightarrow> task \<Rightarrow> (val + val) \<times> task" where
  "settle er t =
     (case er of (error, res) \<Rightarrow>
        (let t1 = t\<lparr>executed := True\<rparr> in
         if truthy error
         then (Inl error, task_emit (PError (Reason error)) (t1\<lparr>has_error := True\<rparr>))
         else (Inr res, task_emit (PDone res) (t1\<lparr>result := Some res\<rparr>))))"

definition run :: "action list \<Rightarrow> outcome \<Rightarrow> task \<Rightarrow> (val + val) \<times> task" where
  "run during out t =
     (let t1 = fold act during (task_emit PStart t) in
      case out of
        ThrowsSync e \<Rightarrow> (Inl e, t1)
      | Returns promise \<Rightarrow> settle (catchError promise) t1)"

section \<open>Properties of the Notifier\<close>

lemma wf_new_emitter: "wf_emitter new_emitter"
  by (simp add: wf_emitter_def new_emitter_def)

lemma wf_on: "wf_emitter e \<Longrightarrow> wf_emitter (on k l e)"
  by (auto simp: wf_emitter_def on_def less_Suc_eq split: option.splits if_splits)

lemma wf_off: "wf_emitter e \<Longrightarrow> wf_emitter (off k l e)"
  apply (simp add: wf_emitter_def off_def Let_def split: option.splits if_splits)
  by (metis less_Suc_eq)

lemma wf_once: "wf_emitter e \<Longrightarrow> wf_emitter (once k l e)"
  using wf_on [of "e\<lparr>next_closure := Suc (next_closure e)\<rparr>" k]
  by (simp add: once_def wf_emitter_def)

lemma wf_removeAllListeners: "wf_emitter e \<Longrightarrow> wf_emitter (removeAllListeners k e)"
  by (auto simp: wf_emitter_def removeAllListeners_def split: option.splits if_splits)

text \<open>
  What one call does to the store. \<^verbatim>\<open>off\<close> allocates and never writes to an
  existing array; \<^verbatim>\<open>on\<close> and \<^verbatim>\<open>once\<close> can only append to one.
\<close>

lemma off_frame:
  "a < next_addr e \<Longrightarrow>
     next_addr e \<le> next_addr (off k l e) \<and> arrays (off k l e) a = arrays e a \<and>
     calls (off k l e) = calls e"
  by (auto simp: off_def Let_def split: option.splits)

lemma on_frame:
  "a < next_addr e \<Longrightarrow>
     next_addr e \<le> next_addr (on k l e) \<and> (\<exists>ext. arrays (on k l e) a = arrays e a @ ext) \<and>
     calls (on k l e) = calls e"
  by (auto simp: on_def split: option.splits)

lemma once_frame:
  "a < next_addr e \<Longrightarrow>
     next_addr e \<le> next_addr (once k l e) \<and> (\<exists>ext. arrays (once k l e) a = arrays e a @ ext) \<and>
     calls (once k l e) = calls e"
  using on_frame [of a "e\<lparr>next_closure := Suc (next_closure e)\<rparr>" k] 
  by (auto simp: once_def)

lemma run_ops_grows:
  "run_ops ops e = (t, e') \<Longrightarrow> a < next_addr e \<Longrightarrow>
     next_addr e \<le> next_addr e' \<and> (\<exists>ext. arrays e' a = arrays e a @ ext) \<and> calls e' = calls e"
proof (induction ops e rule: run_ops.induct)
  case (1 e)
  then show ?case by simp
next
  case (2 k l ops e)
  from on_frame [of a e k l] "2.prems" obtain ext where
    x: "arrays (on k l e) a = arrays e a @ ext" "next_addr e \<le> next_addr (on k l e)" "calls (on k l e) = calls e"
    by auto
  with 2 show ?case by fastforce
next
  case (3 k l ops e)
  from off_frame [of a e k l] "3.prems" have
    x: "arrays (off k l e) a = arrays e a" "next_addr e \<le> next_addr (off k l e)" "calls (off k l e) = calls e"
    by auto
  with 3 show ?case by fastforce
next
  case (4 k l ops e)
  from once_frame [of a e k l] "4.prems" obtain ext where
    x: "arrays (once k l e) a = arrays e a @ ext" "next_addr e \<le> next_addr (once k l e)" "calls (once k l e) = calls e"
    by auto
  with 4 show ?case by fastforce
next
  case (5 ops e)
  then show ?case by auto
qed

lemma run_ops_removes:
  "list_all is_off ops \<Longrightarrow> a < next_addr e \<Longrightarrow>
     fst (run_ops ops e) = False \<and> next_addr e \<le> next_addr (snd (run_ops ops e)) \<and>
     arrays (snd (run_ops ops e)) a = arrays e a \<and> calls (snd (run_ops ops e)) = calls e"
proof (induction ops e rule: run_ops.induct)
  case (3 k l ops e)
  from off_frame [of a e k l] "3.prems" have
    x: "arrays (off k l e) a = arrays e a" "next_addr e \<le> next_addr (off k l e)" "calls (off k l e) = calls e"
    by auto
  with 3 show ?case by fastforce
qed auto

lemma call_grows:
  "call body f args e = (False, e') \<Longrightarrow> a < next_addr e \<Longrightarrow>
     next_addr e \<le> next_addr e' \<and> (\<exists>ext. arrays e' a = arrays e a @ ext) \<and>
     calls e' = calls e @ calls_of args f"
proof (induction f arbitrary: e e')
  case (Client c)
  from run_ops_grows [of "body c" "e\<lparr>calls := calls e @ [(Client c, args)]\<rparr>" False e' a] Client
  show ?case by auto
next
  case (OnceListener n event listener)
  let ?w = "OnceListener n event listener"
  let ?e0 = "e\<lparr>calls := calls e @ [(?w, args)]\<rparr>"
  from OnceListener.prems obtain e1 where
    c: "call body listener args ?e0 = (False, e1)" and e': "e' = off event ?w e1"
    by (auto split: prod.splits bool.splits)
  from OnceListener.IH [OF c] OnceListener.prems(2) obtain ext where
    g: "next_addr e \<le> next_addr e1" "arrays e1 a = arrays e a @ ext"
       "calls e1 = calls e @ (?w, args) # calls_of args listener"
    by auto
  from g(1) OnceListener.prems(2) have "a < next_addr e1" by simp
  from off_frame [OF this, of event ?w] g e' show ?case by auto
qed

lemma call_removes:
  "removes_only body f \<Longrightarrow> a < next_addr e \<Longrightarrow>
     fst (call body f args e) = False \<and> next_addr e \<le> next_addr (snd (call body f args e)) \<and>
     arrays (snd (call body f args e)) a = arrays e a \<and>
     calls (snd (call body f args e)) = calls e @ calls_of args f"
proof (induction f arbitrary: e)
  case (Client c)
  from run_ops_removes [of "body c" a "e\<lparr>calls := calls e @ [(Client c, args)]\<rparr>"] Client
  show ?case by auto
next
  case (OnceListener n event listener)
  let ?w = "OnceListener n event listener"
  let ?e0 = "e\<lparr>calls := calls e @ [(?w, args)]\<rparr>"
  obtain t e1 where c: "call body listener args ?e0 = (t, e1)" by fastforce
  from OnceListener.IH [of ?e0] OnceListener.prems c have
    g: "t = False" "next_addr e \<le> next_addr e1" "arrays e1 a = arrays e a"
       "calls e1 = calls e @ (?w, args) # calls_of args listener"
    by auto
  from g(2) OnceListener.prems(2) have "a < next_addr e1" by simp
  from off_frame [OF this, of event ?w] g c show ?case by auto
qed

lemma emit_loop_grows:
  "emit_loop body fuel a i args e = Some (False, e') \<Longrightarrow> a < next_addr e \<Longrightarrow>
     i \<le> length (arrays e a) \<Longrightarrow>
     (\<exists>ext. arrays e' a = arrays e a @ ext) \<and>
     calls e' = calls e @ concat (map (calls_of args) (drop i (arrays e' a)))"
proof (induction fuel arbitrary: i e)
  case 0
  then show ?case by simp
next
  case (Suc fuel)
  show ?case
  proof (cases "i < length (arrays e a)")
    case False
    with Suc.prems show ?thesis by auto
  next
    case True
    let ?f = "arrays e a ! i"
    from Suc.prems(1) True obtain e1 where
      c: "call body ?f args e = (False, e1)" and
      r: "emit_loop body fuel a (Suc i) args e1 = Some (False, e')"
      by (auto split: prod.splits bool.splits)
    from call_grows [OF c Suc.prems(2)] obtain ext1 where
      g: "next_addr e \<le> next_addr e1" "arrays e1 a = arrays e a @ ext1"
         "calls e1 = calls e @ calls_of args ?f"
      by auto
    have a1: "a < next_addr e1" using g(1) Suc.prems(2) by simp
    have i1: "Suc i \<le> length (arrays e1 a)" using g(2) True by simp
    from Suc.IH [OF r a1 i1] obtain ext2 where
      h: "arrays e' a = arrays e1 a @ ext2"
         "calls e' = calls e1 @ concat (map (calls_of args) (drop (Suc i) (arrays e' a)))"
      by auto
    have full: "arrays e' a = arrays e a @ ext1 @ ext2" using h(1) g(2) by simp
    have lt: "i < length (arrays e' a)" using full True by simp
    have nth: "arrays e' a ! i = ?f" using full True by (simp add: nth_append)
    have "drop i (arrays e' a) = ?f # drop (Suc i) (arrays e' a)"
      using Cons_nth_drop_Suc [OF lt] nth by simp
    with h(2) g(3) full show ?thesis by simp
  qed
qed

lemma emit_loop_removes:
  "\<forall>l \<in> set (arrays e a). removes_only body l \<Longrightarrow> a < next_addr e \<Longrightarrow>
     length (arrays e a) - i < fuel \<Longrightarrow>
     \<exists>e'. emit_loop body fuel a i args e = Some (False, e') \<and> arrays e' a = arrays e a \<and>
       calls e' = calls e @ concat (map (calls_of args) (drop i (arrays e a)))"
proof (induction fuel arbitrary: i e)
  case 0
  then show ?case by simp
next
  case (Suc fuel)
  show ?case
  proof (cases "i < length (arrays e a)")
    case False
    then show ?thesis by simp
  next
    case True
    let ?f = "arrays e a ! i"
    obtain t e1 where c: "call body ?f args e = (t, e1)" by fastforce
    have ro: "removes_only body ?f" using Suc.prems(1) True by simp
    from call_removes [OF ro Suc.prems(2), of args] c have
      g: "t = False" "next_addr e \<le> next_addr e1" "arrays e1 a = arrays e a"
         "calls e1 = calls e @ calls_of args ?f"
      by auto
    have a1: "a < next_addr e1" using g(2) Suc.prems(2) by simp
    have p1: "\<forall>l \<in> set (arrays e1 a). removes_only body l" using g(3) Suc.prems(1) by simp
    have f1: "length (arrays e1 a) - Suc i < fuel" using g(3) Suc.prems(3) True by simp
    from Suc.IH [OF p1 a1 f1] obtain e' where
      h: "emit_loop body fuel a (Suc i) args e1 = Some (False, e')" "arrays e' a = arrays e1 a"
         "calls e' = calls e1 @ concat (map (calls_of args) (drop (Suc i) (arrays e1 a)))"
      by auto
    have "drop i (arrays e a) = ?f # drop (Suc i) (arrays e a)"
      using Cons_nth_drop_Suc [OF True] by simp
    with h g c True show ?thesis by simp
  qed
qed

text \<open>
  Claim C8. In every state of the class and for every key, whenever \<^verbatim>\<open>emit\<close>
  returns, it has called every listener that was registered for the key when it was
  entered, in registration order and each with the arguments of \<^verbatim>\<open>emit\<close>
  (followed only by listeners that were pushed during the round), and it returns
  \<open>true\<close> exactly when a listener was registered. When the listeners of the round
  only remove listeners (themselves or any other, of any key) nothing throws,
  \<^verbatim>\<open>emit\<close> returns, and the listeners called are exactly those registered at
  entry: a removal during the round does not change the round.
\<close>

theorem emit_invokes_registered:
  assumes wf: "wf_emitter e"
  shows "(\<forall>b e'. emit body fuel event args e = Some (Returned b, e') \<longrightarrow>
            b = (listeners event e \<noteq> []) \<and>
            (\<exists>later. calls e' = calls e @ concat (map (calls_of args) (listeners event e @ later))))
       \<and> ((\<forall>l \<in> set (listeners event e). removes_only body l) \<and> listenerCount event e < fuel \<longrightarrow>
            (\<exists>e'. emit body fuel event args e = Some (Returned (listeners event e \<noteq> []), e') \<and>
                  calls e' = calls e @ concat (map (calls_of args) (listeners event e))))"
proof (cases "listeners_map e event")
  case None
  have "\<exists>later. calls e = calls e @ concat (map (calls_of args) later)"
    by (rule exI [of _ "[]"]) simp
  with None show ?thesis by (simp add: emit_def listeners_def listenerCount_def)
next
  case (Some a)
  with wf have a: "a < next_addr e" and ne: "arrays e a \<noteq> []"
    by (auto simp: wf_emitter_def)
  have ls: "listeners event e = arrays e a" "listenerCount event e = length (arrays e a)"
    using Some by (simp_all add: listeners_def listenerCount_def)
  have general: "b = (listeners event e \<noteq> []) \<and>
      (\<exists>later. calls e' = calls e @ concat (map (calls_of args) (listeners event e @ later)))"
    if r: "emit body fuel event args e = Some (Returned b, e')" for b e'
  proof -
    from r Some have l: "emit_loop body fuel a 0 args e = Some (False, e')" and b: "b = True"
      by (auto simp: emit_def split: option.splits prod.splits bool.splits)
    from emit_loop_grows [OF l a] obtain ext where
      "arrays e' a = arrays e a @ ext"
      "calls e' = calls e @ concat (map (calls_of args) (arrays e' a))"
      by auto
    with b ne ls show ?thesis by auto
  qed
  have quiet: "\<exists>e'. emit body fuel event args e = Some (Returned (listeners event e \<noteq> []), e') \<and>
      calls e' = calls e @ concat (map (calls_of args) (listeners event e))"
    if p: "\<forall>l \<in> set (listeners event e). removes_only body l" and f: "listenerCount event e < fuel"
  proof -
    from p ls have p': "\<forall>l \<in> set (arrays e a). removes_only body l" by simp
    from f ls have f': "length (arrays e a) - 0 < fuel" by simp
    from emit_loop_removes [OF p' a f', of args] obtain e' where
      "emit_loop body fuel a 0 args e = Some (False, e')"
      "calls e' = calls e @ concat (map (calls_of args) (arrays e a))"
      by auto
    with Some ne ls show ?thesis by (auto simp: emit_def)
  qed
  from general quiet show ?thesis by blast
qed

lemma demo_listeners:
  "listeners ''tick'' demo_emitter = [Client 0, Client 1, OnceListener 0 ''tick'' (Client 3), Client 2]"
  by (simp add: demo_emitter_def new_emitter_def on_def once_def listeners_def)

lemma wf_demo: "wf_emitter demo_emitter"
  unfolding demo_emitter_def by (intro wf_on wf_once wf_new_emitter)

lemma demo_calls: "calls demo_emitter = []"
  by (simp add: demo_emitter_def new_emitter_def on_def once_def)

theorem emit_invokes_registered_witness:
  "wf_emitter demo_emitter \<and>
   list_all (removes_only demo_body) (listeners ''tick'' demo_emitter) \<and>
   listenerCount ''tick'' demo_emitter < 5 \<and>
   (\<exists>e'. emit demo_body 5 ''tick'' (7::nat) demo_emitter = Some (Returned True, e') \<and>
      calls e' = [(Client 0, 7), (Client 1, 7), (OnceListener 0 ''tick'' (Client 3), 7),
                  (Client 3, 7), (Client 2, 7)])"
proof -
  have p: "\<forall>l \<in> set (listeners ''tick'' demo_emitter). removes_only demo_body l"
    by (simp add: demo_listeners demo_body_def)
  have f: "listenerCount ''tick'' demo_emitter < 5"
    by (simp add: demo_emitter_def new_emitter_def on_def once_def listenerCount_def)
  from emit_invokes_registered [OF wf_demo, of demo_body 5 "''tick''" 7] p f
  show ?thesis by (simp add: demo_listeners demo_calls wf_demo)
qed

text \<open>
  Claim C9, as the code has it. \<^verbatim>\<open>on\<close> appends without looking for the listener
  in the array, and \<^verbatim>\<open>once\<close> appends a fresh closure, so a listener registered
  twice is held twice; \<^verbatim>\<open>off\<close> removes every entry that is identical to the
  listener and keeps the others in order.
\<close>

theorem listeners_on_once_off:
  "listeners k (on k l e) = listeners k e @ [l] \<and>
   listeners k (once k l e) = listeners k e @ [OnceListener (next_closure e) k l] \<and>
   listeners k (off k l e) = filter (\<lambda>x. x \<noteq> l) (listeners k e)"
  by (auto simp: listeners_def on_def once_def off_def Let_def split: option.splits)

theorem listener_twice_counterexample:
  "\<not> distinct (listeners ''change'' (on ''change'' (Client 0) (on ''change'' (Client 0) (new_emitter :: unit emitter))))"
  by (simp add: listeners_def on_def new_emitter_def)

section \<open>Properties of observable values\<close>

declare set_value.simps [simp del] updateValue.simps [simp del]

declare set_value_exn.simps [simp del] updateValue_exn.simps [simp del]

lemma events_at_simps [simp]:
  "events_at ob [] = []"
  "events_at ob (e # evs) = (case event_at ob e of None \<Rightarrow> events_at ob evs | Some h \<Rightarrow> h # events_at ob evs)"
  "events_at ob (evs @ evs') = events_at ob evs @ events_at ob evs'"
  by (simp_all add: events_at_def List.map_filter_def split: option.splits)

lemma shape_refl: "shape st st"
  by (simp add: shape_def)

lemma shape_trans: "shape a b \<Longrightarrow> shape b c \<Longrightarrow> shape a c"
  by (simp add: shape_def)

lemma shape_wf: "shape st st' \<Longrightarrow> wf_state st \<Longrightarrow> wf_state st'"
  by (simp add: shape_def wf_state_def)

lemma shape_computed: "shape st st' \<Longrightarrow> is_computed st c srcs f \<Longrightarrow> is_computed st' c srcs f"
  by (simp add: shape_def is_computed_def)

lemma rel_refl: "rel lo ob [] st st"
  by (simp add: rel_def shape_refl)

lemma rel_trans:
  assumes "rel lo ob h1 a b" and "rel lo ob h2 b c"
  shows "rel lo ob (h1 @ h2) a c"
proof -
  from assms have sh: "shape a b" "shape b c" by (simp_all add: rel_def)
  from assms obtain e1 e2 where
    e: "trace b = trace a @ e1" "events_at ob e1 = h1" "\<forall>q<ob. events_at q e1 = []"
       "trace c = trace b @ e2" "events_at ob e2 = h2" "\<forall>q<ob. events_at q e2 = []"
    unfolding rel_def by blast
  have ev: "\<exists>evs. trace c = trace a @ evs \<and> events_at ob evs = h1 @ h2 \<and> (\<forall>q<ob. events_at q evs = [])"
    by (rule exI [of _ "e1 @ e2"]) (use e in simp)
  have fr: "\<forall>q<lo. objs c q = objs a q" using assms by (simp add: rel_def)
  have sy: "\<not> isBatching a \<longrightarrow> (\<forall>p. p \<noteq> ob \<longrightarrow> synced_at a p \<longrightarrow> synced_at c p)"
    using assms sh by (simp add: rel_def shape_def)
  have qu: "\<forall>q \<in> set (updateQueue c). q \<in> set (updateQueue a) \<or>
      (lo \<le> q \<and> q < next_id a \<and> current (objs a q) \<noteq> None)"
  proof
    fix q assume "q \<in> set (updateQueue c)"
    with assms(2) have "q \<in> set (updateQueue b) \<or>
        (lo \<le> q \<and> q < next_id b \<and> current (objs b q) \<noteq> None)"
      by (simp add: rel_def)
    with assms(1) sh(1) show "q \<in> set (updateQueue a) \<or>
        (lo \<le> q \<and> q < next_id a \<and> current (objs a q) \<noteq> None)"
      by (auto simp: rel_def shape_def)
  qed
  from shape_trans [OF sh] fr ev sy qu show ?thesis by (simp add: rel_def)
qed

lemma rel_lower:
  assumes "rel lo c hs st st'" and "\<not> isBatching st \<longrightarrow> synced_at st' c" and "ob < c" and "lo' \<le> lo"
  shows "rel lo' ob [] st st'"
  using assms unfolding rel_def by (auto; metis)

lemma rel_mono: "rel hi ob hs st st' \<Longrightarrow> lo \<le> hi \<Longrightarrow> rel lo ob hs st st'"
  unfolding rel_def by auto

lemma synced_iff: "synced st = (\<forall>p<next_id st. synced_at st p)"
  by (auto simp: synced_def list_all_iff)

lemma wf_state_listeners:
  "wf_state st \<Longrightarrow> p < next_id st \<Longrightarrow> list_all (wf_listener (next_id st) p) (change_listeners (objs st p))"
  by (auto simp: wf_state_def list_all_iff)

lemma not_strict_ne: "\<not> strict_ne a b \<Longrightarrow> a = b"
  by (simp add: strict_ne_def)

lemma subscribers_Cons: "subscribers (l # ls) = subscribers [l] @ subscribers ls"
  by (cases l) simp_all

lemma synced_at_cong: "objs st' p = objs st p \<Longrightarrow> synced_at st' p = synced_at st p"
  by (simp add: synced_at_def)

lemma rel_emitted:
  "rel ob ob [(None, v)] st
     (st\<lparr>objs := (objs st)(ob := (objs st ob)\<lparr>value_field := v\<rparr>), trace := trace st @ [Emitted ob v]\<rparr>)"
  by (simp add: rel_def shape_def synced_at_def)

lemma rel_current:
  "current (objs st ob) = Some cv \<Longrightarrow>
     rel ob ob [] st (st\<lparr>objs := (objs st)(ob := (objs st ob)\<lparr>current := Some v\<rparr>)\<rparr>)"
  by (simp add: rel_def shape_def synced_at_def)

lemma rel_queued:
  "current (objs st ob) = Some cv \<Longrightarrow> isBatching st \<Longrightarrow> ob < next_id st \<Longrightarrow>
     rel ob ob [] st (st\<lparr>objs := (objs st)(ob := (objs st ob)\<lparr>current := Some v\<rparr>),
                        updateQueue := queue_add ob (updateQueue st)\<rparr>)"
  by (auto simp: rel_def shape_def synced_at_def queue_add_def)

lemma frame:
  shows
  "wf_state st \<longrightarrow> ob < next_id st \<longrightarrow> next_id st \<le> fuel + Suc ob \<longrightarrow>
     list_all (wf_listener (next_id st) ob) ls \<longrightarrow>
     (\<exists>st'. emit_change fuel ob ls v st = Some st' \<and>
        rel (Suc ob) ob (map (\<lambda>t. (Some t, v)) (subscribers ls)) st st')"
  and
  "wf_state st \<longrightarrow> ob < next_id st \<longrightarrow> next_id st \<le> fuel + Suc ob \<longrightarrow>
     wf_listener (next_id st) ob l \<longrightarrow>
     (\<exists>st'. invoke fuel ob l v st = Some st' \<and>
        rel (Suc ob) ob (map (\<lambda>t. (Some t, v)) (subscribers [l])) st st')"
  and
  "wf_state st \<longrightarrow> ob < next_id st \<longrightarrow> next_id st \<le> fuel + Suc ob \<longrightarrow>
     (\<exists>st'. updateValue fuel ob v st = Some st' \<and>
        rel ob ob (if strict_ne v (value_field (objs st ob))
                   then round (change_listeners (objs st ob)) v else []) st st' \<and>
        objs st' ob = (if strict_ne v (value_field (objs st ob))
                       then (objs st ob)\<lparr>value_field := v\<rparr> else objs st ob))"
  and
  "wf_state st \<longrightarrow> ob < next_id st \<longrightarrow> next_id st \<le> fuel + Suc ob \<longrightarrow>
     (\<exists>st' hs. set_value fuel ob v st = Some st' \<and> rel ob ob hs st st' \<and>
        (\<not> isBatching st \<longrightarrow> synced_at st ob \<longrightarrow> synced_at st' ob))"
proof (induction fuel ob ls v st and fuel ob l v st and fuel ob v st and fuel ob v st
       rule: emit_change_invoke_updateValue_set_value.induct)
  case (1 fuel ob v st)
  show ?case by (simp add: rel_refl)
next
  case (2 fuel ob l ls v st)
  show ?case
  proof (intro impI)
    assume wf: "wf_state st" and ob: "ob < next_id st" and fu: "next_id st \<le> fuel + Suc ob"
      and w: "list_all (wf_listener (next_id st) ob) (l # ls)"
    from "2.IH"(1) wf ob fu w obtain st1 where
      i: "invoke fuel ob l v st = Some st1"
      and r1: "rel (Suc ob) ob (map (\<lambda>t. (Some t, v)) (subscribers [l])) st st1"
      by auto
    from r1 have sh: "shape st st1" by (simp add: rel_def)
    then have n1: "next_id st1 = next_id st" by (simp add: shape_def)
    from "2.IH"(2) [OF i] shape_wf [OF sh wf] ob fu w n1 obtain st2 where
      e: "emit_change fuel ob ls v st1 = Some st2"
      and r2: "rel (Suc ob) ob (map (\<lambda>t. (Some t, v)) (subscribers ls)) st1 st2"
      by auto
    from rel_trans [OF r1 r2]
    have "rel (Suc ob) ob (map (\<lambda>t. (Some t, v)) (subscribers (l # ls))) st st2"
      by (simp add: subscribers_Cons [of l ls])
    with i e show "\<exists>st'. emit_change fuel ob (l # ls) v st = Some st' \<and>
        rel (Suc ob) ob (map (\<lambda>t. (Some t, v)) (subscribers (l # ls))) st st'"
      by simp
  qed
next
  case (3 fuel ob t v st)
  show ?case by (simp add: rel_def shape_def synced_at_def)
next
  case (4 fuel ob n cb v st)
  show ?case by (simp add: rel_def shape_def synced_at_def)
next
  case (5 ob c' i observables transform v st)
  show ?case by auto
next
  case (6 fuel ob c' i observables transform v st)
  show ?case
  proof (intro impI)
    assume wf: "wf_state st" and ob: "ob < next_id st" and fu: "next_id st \<le> Suc fuel + Suc ob"
      and w: "wf_listener (next_id st) ob (Recompute c' i observables transform)"
    let ?v = "transform (map (\<lambda>s. get_value (objs st s)) observables)"
    from w fu have c: "c' < next_id st" "next_id st \<le> fuel + Suc c'" "ob < c'" by auto
    from "6.IH" wf c obtain st' hs where
      s: "set_value fuel c' ?v st = Some st'" and r: "rel c' c' hs st st'"
      and sy: "\<not> isBatching st \<longrightarrow> synced_at st c' \<longrightarrow> synced_at st' c'"
      by blast
    have "rel (Suc ob) ob [] st st'"
      using r sy c(3) unfolding rel_def by (auto; metis)
    with s show "\<exists>st'. invoke (Suc fuel) ob (Recompute c' i observables transform) v st = Some st' \<and>
        rel (Suc ob) ob (map (\<lambda>t. (Some t, v)) (subscribers [Recompute c' i observables transform])) st st'"
      by simp
  qed
next
  case (7 fuel ob newValue st)
  show ?case
  proof (intro impI)
    assume wf: "wf_state st" and ob: "ob < next_id st" and fu: "next_id st \<le> fuel + Suc ob"
    show "\<exists>st'. updateValue fuel ob newValue st = Some st' \<and>
        rel ob ob (if strict_ne newValue (value_field (objs st ob))
                   then round (change_listeners (objs st ob)) newValue else []) st st' \<and>
        objs st' ob = (if strict_ne newValue (value_field (objs st ob))
                       then (objs st ob)\<lparr>value_field := newValue\<rparr> else objs st ob)"
    proof (cases "strict_ne newValue (value_field (objs st ob))")
      case False
      then show ?thesis by (simp add: updateValue.simps rel_refl)
    next
      case True
      let ?st1 = "st\<lparr>objs := (objs st)(ob := (objs st ob)\<lparr>value_field := newValue\<rparr>),
                     trace := trace st @ [Emitted ob newValue]\<rparr>"
      have r1: "rel ob ob [(None, newValue)] st ?st1" by (rule rel_emitted)
      then have sh: "shape st ?st1" by (simp add: rel_def)
      have w: "list_all (wf_listener (next_id ?st1) ob) (change_listeners (objs st ob))"
        using wf_state_listeners [OF wf ob] by simp
      from "7.IH" [OF True] shape_wf [OF sh wf] ob fu w obtain st2 where
        e: "emit_change fuel ob (change_listeners (objs st ob)) newValue ?st1 = Some st2"
        and r2: "rel (Suc ob) ob (map (\<lambda>t. (Some t, newValue)) (subscribers (change_listeners (objs st ob)))) ?st1 st2"
        by auto
      from r2 have "objs st2 ob = objs ?st1 ob" by (simp add: rel_def)
      then have o: "objs st2 ob = (objs st ob)\<lparr>value_field := newValue\<rparr>" by simp
      from rel_trans [OF r1 rel_mono [OF r2]]
      have "rel ob ob (round (change_listeners (objs st ob)) newValue) st st2"
        by (simp add: round_def)
      with True e o show ?thesis by (simp add: updateValue.simps)
    qed
  qed
next
  case (8 fuel ob newValue st)
  show ?case
  proof (intro impI)
    assume wf: "wf_state st" and ob: "ob < next_id st" and fu: "next_id st \<le> fuel + Suc ob"
    show "\<exists>st' hs. set_value fuel ob newValue st = Some st' \<and> rel ob ob hs st st' \<and>
        (\<not> isBatching st \<longrightarrow> synced_at st ob \<longrightarrow> synced_at st' ob)"
    proof (cases "current (objs st ob)")
      case None
      show ?thesis
      proof (cases "strict_ne newValue (value_field (objs st ob))")
        case False
        with None have "set_value fuel ob newValue st = Some st" by (simp add: set_value.simps)
        with rel_refl [of ob ob st] show ?thesis by blast
      next
        case True
        let ?st1 = "st\<lparr>objs := (objs st)(ob := (objs st ob)\<lparr>value_field := newValue\<rparr>),
                       trace := trace st @ [Emitted ob newValue]\<rparr>"
        have r1: "rel ob ob [(None, newValue)] st ?st1" by (rule rel_emitted)
        then have sh: "shape st ?st1" by (simp add: rel_def)
        have w: "list_all (wf_listener (next_id ?st1) ob) (change_listeners (objs st ob))"
          using wf_state_listeners [OF wf ob] by simp
        from "8.IH"(1) [OF None True] shape_wf [OF sh wf] ob fu w obtain st2 where
          e: "emit_change fuel ob (change_listeners (objs st ob)) newValue ?st1 = Some st2"
          and r2: "rel (Suc ob) ob (map (\<lambda>t. (Some t, newValue)) (subscribers (change_listeners (objs st ob)))) ?st1 st2"
          by auto
        from r2 have "objs st2 ob = objs ?st1 ob" by (simp add: rel_def)
        with None have sy: "synced_at st2 ob" by (simp add: synced_at_def get_value_def)
        from None True e have "set_value fuel ob newValue st = Some st2" by (simp add: set_value.simps)
        with rel_trans [OF r1 rel_mono [OF r2]] sy show ?thesis by auto
      qed
    next
      case (Some currentValue)
      show ?thesis
      proof (cases "strict_ne newValue currentValue")
        case False
        with Some have "set_value fuel ob newValue st = Some st" by (simp add: set_value.simps)
        with rel_refl [of ob ob st] show ?thesis by blast
      next
        case True
        show ?thesis
        proof (cases "isBatching st")
          case b: True
          let ?st1 = "st\<lparr>objs := (objs st)(ob := (objs st ob)\<lparr>current := Some newValue\<rparr>),
                         updateQueue := queue_add ob (updateQueue st)\<rparr>"
          from Some True b have "set_value fuel ob newValue st = Some ?st1"
            by (simp add: set_value.simps)
          with rel_queued [OF Some b ob, of newValue] b show ?thesis by blast
        next
          case nb: False
          let ?st1 = "st\<lparr>objs := (objs st)(ob := (objs st ob)\<lparr>current := Some newValue\<rparr>)\<rparr>"
          have r1: "rel ob ob [] st ?st1" by (rule rel_current [OF Some])
          then have sh: "shape st ?st1" by (simp add: rel_def)
          from "8.IH"(2) [OF Some True nb] shape_wf [OF sh wf] ob fu obtain st2 where
            u: "updateValue fuel ob newValue ?st1 = Some st2"
            and r2: "rel ob ob (if strict_ne newValue (value_field (objs ?st1 ob))
                   then round (change_listeners (objs ?st1 ob)) newValue else []) ?st1 st2"
            and o: "objs st2 ob = (if strict_ne newValue (value_field (objs ?st1 ob))
                       then (objs ?st1 ob)\<lparr>value_field := newValue\<rparr> else objs ?st1 ob)"
            by auto
          have sy: "synced_at st2 ob"
          proof (cases "strict_ne newValue (value_field (objs ?st1 ob))")
            case True
            with o show ?thesis by (simp add: synced_at_def get_value_def)
          next
            case False
            from not_strict_ne [OF False] o False show ?thesis
              by (simp add: synced_at_def get_value_def)
          qed
          from Some True nb u have "set_value fuel ob newValue st = Some st2"
            by (simp add: set_value.simps)
          with rel_trans [OF r1 r2] sy show ?thesis by auto
        qed
      qed
    qed
  qed
qed

text \<open>The example graph is what the calls of the library build.\<close>

lemma demo_graph_built:
  "(case signal (Num 1) init_state of (a, s1) \<Rightarrow>
    case new_observable (Num 2) s1 of (b, s2) \<Rightarrow>
    case computed [a, b] add_nums s2 of (c, u1, s3) \<Rightarrow>
    case computed [a, c] add_nums s3 of (d, u2, s4) \<Rightarrow>
      subscribe a (Subscriber 2) (subscribe d (Subscriber 1) (subscribe c (Subscriber 0) s4)))
   = demo_graph"
proof -
  let ?d = "\<lambda>_::nat. \<lparr>value_field = Undefined, change_listeners = [], current = None\<rparr>"
  let ?s1 = "\<lparr>objs = ?d(0 := \<lparr>value_field = Num 1, change_listeners = [], current = Some (Num 1)\<rparr>),
      next_id = 1, isBatching = False, updateQueue = [], next_effect = 0, trace = []\<rparr>"
  have 1: "signal (Num 1) init_state = (0, ?s1)"
    by (simp add: signal_def new_observable_def init_state_def)
  let ?s2 = "\<lparr>objs = ?d(0 := \<lparr>value_field = Num 1, change_listeners = [], current = Some (Num 1)\<rparr>,
       1 := \<lparr>value_field = Num 2, change_listeners = [], current = None\<rparr>),
      next_id = 2, isBatching = False, updateQueue = [], next_effect = 0, trace = []\<rparr>"
  have 2: "new_observable (Num 2) ?s1 = (1, ?s2)"
    by (simp add: new_observable_def)
  let ?s3 = "\<lparr>objs = ?d(0 := \<lparr>value_field = Num 1, change_listeners = [Recompute 2 0 [0, 1] add_nums], current = Some (Num 1)\<rparr>,
       1 := \<lparr>value_field = Num 2, change_listeners = [Recompute 2 1 [0, 1] add_nums], current = None\<rparr>,
       2 := \<lparr>value_field = Num 3, change_listeners = [], current = None\<rparr>),
      next_id = 3, isBatching = False, updateQueue = [], next_effect = 0, trace = []\<rparr>"
  have 3: "computed [0, 1] add_nums ?s2 =
      (2, [(0, Recompute 2 0 [0, 1] add_nums), (1, Recompute 2 1 [0, 1] add_nums)], ?s3)"
    by (simp add: computed_def new_observable_def subscribe_def get_value_def add_nums_def
          upt_rec [of 0 2] upt_rec [of 1 2] numeral_2_eq_2 fun_eq_iff)
  let ?s4 = "\<lparr>objs = ?d(0 := \<lparr>value_field = Num 1,
         change_listeners = [Recompute 2 0 [0, 1] add_nums, Recompute 3 0 [0, 2] add_nums], current = Some (Num 1)\<rparr>,
       1 := \<lparr>value_field = Num 2, change_listeners = [Recompute 2 1 [0, 1] add_nums], current = None\<rparr>,
       2 := \<lparr>value_field = Num 3, change_listeners = [Recompute 3 1 [0, 2] add_nums], current = None\<rparr>,
       3 := \<lparr>value_field = Num 4, change_listeners = [], current = None\<rparr>),
      next_id = 4, isBatching = False, updateQueue = [], next_effect = 0, trace = []\<rparr>"
  have 4: "computed [0, 2] add_nums ?s3 =
      (3, [(0, Recompute 3 0 [0, 2] add_nums), (2, Recompute 3 1 [0, 2] add_nums)], ?s4)"
    by (simp add: computed_def new_observable_def subscribe_def get_value_def add_nums_def
          upt_rec [of 0 2] upt_rec [of 1 2] numeral_2_eq_2 fun_eq_iff)
  have 5: "subscribe 0 (Subscriber 2) (subscribe 3 (Subscriber 1) (subscribe 2 (Subscriber 0) ?s4)) = demo_graph"
    by (simp add: subscribe_def demo_graph_def fun_eq_iff)
  show ?thesis
    by (simp only: 1 2 3 4 5 prod.case)
qed

lemma upt4: "[0..<4] = [0, 1, 2, 3]"
  by (simp add: upt_rec)

lemma demo_wf: "wf_state demo_graph"
  by (simp add: wf_state_def demo_graph_def upt4)

lemma demo_synced: "synced demo_graph"
  by (simp add: synced_def synced_at_def get_value_def demo_graph_def upt4)

lemma demo_computed: "is_computed demo_graph 3 [0, 2] add_nums"
  by (simp add: is_computed_def demo_graph_def upt4)

lemma demo_run: "map_option trace (set_value 3 0 (Num 5) demo_graph) =
  Some [Emitted 0 (Num 5), Emitted 2 (Num 7), Emitted 3 (Num 12),
     Notified 3 1 (Num 12) [Num 5, Num 2, Num 7, Num 12],
     Notified 2 0 (Num 7) [Num 5, Num 2, Num 7, Num 12],
     Notified 0 2 (Num 5) [Num 5, Num 2, Num 7, Num 12]]"
  by (simp add: set_value.simps updateValue.simps demo_graph_def snapshot_def upt4 add_nums_def strict_ne_def numeral_3_eq_3 get_value_def)

lemma demo_obj0:
  "objs demo_graph 0 =
     \<lparr>value_field = Num 1,
      change_listeners = [Recompute 2 0 [0, 1] add_nums, Recompute 3 0 [0, 2] add_nums, Subscriber 2],
      current = Some (Num 1)\<rparr>"
  by (simp add: demo_graph_def)

lemma demo_direct: "direct demo_graph 0"
  by (simp add: direct_def synced_at_def get_value_def demo_graph_def)

lemma write_direct:
  assumes wf: "wf_state st" and ob: "ob < next_id st" and fu: "next_id st \<le> fuel + Suc ob"
    and d: "direct st ob"
  shows "\<exists>st'. set_value fuel ob v st = Some st' \<and>
           rel ob ob (if strict_ne v (get_value (objs st ob))
                      then round (change_listeners (objs st ob)) v else []) st st' \<and>
           get_value (objs st' ob) = v \<and> direct st' ob"
proof (cases "strict_ne v (get_value (objs st ob))")
  case False
  from not_strict_ne [OF False] have v: "get_value (objs st ob) = v" by simp
  from False d have "set_value fuel ob v st = Some st"
    by (auto simp: set_value.simps get_value_def split: option.splits)
  with False v d show ?thesis by (simp add: rel_refl)
next
  case True
  show ?thesis
  proof (cases "current (objs st ob)")
    case None
    let ?st1 = "st\<lparr>objs := (objs st)(ob := (objs st ob)\<lparr>value_field := v\<rparr>),
                   trace := trace st @ [Emitted ob v]\<rparr>"
    from None True have t: "strict_ne v (value_field (objs st ob))" by (simp add: get_value_def)
    have r1: "rel ob ob [(None, v)] st ?st1" by (rule rel_emitted)
    then have sh: "shape st ?st1" by (simp add: rel_def)
    have w: "list_all (wf_listener (next_id ?st1) ob) (change_listeners (objs st ob))"
      using wf_state_listeners [OF wf ob] by simp
    from frame(1) [of ?st1 ob fuel "change_listeners (objs st ob)" v] shape_wf [OF sh wf] ob fu w
    obtain st2 where
      e: "emit_change fuel ob (change_listeners (objs st ob)) v ?st1 = Some st2"
      and r2: "rel (Suc ob) ob (map (\<lambda>t. (Some t, v)) (subscribers (change_listeners (objs st ob)))) ?st1 st2"
      by auto
    from r2 have o: "objs st2 ob = objs ?st1 ob" by (simp add: rel_def)
    from rel_trans [OF r1 rel_mono [OF r2]]
    have r: "rel ob ob (round (change_listeners (objs st ob)) v) st st2" by (simp add: round_def)
    moreover from None t e have "set_value fuel ob v st = Some st2" by (simp add: set_value.simps)
    moreover from o None have "get_value (objs st2 ob) = v" "direct st2 ob"
      by (simp_all add: get_value_def direct_def)
    ultimately show ?thesis using True by auto
  next
    case (Some cv)
    with d have nb: "\<not> isBatching st" and cv: "cv = value_field (objs st ob)"
      by (auto simp: direct_def synced_at_def get_value_def)
    from Some True have t: "strict_ne v cv" by (simp add: get_value_def)
    let ?st1 = "st\<lparr>objs := (objs st)(ob := (objs st ob)\<lparr>current := Some v\<rparr>)\<rparr>"
    have r1: "rel ob ob [] st ?st1" by (rule rel_current [OF Some])
    then have sh: "shape st ?st1" by (simp add: rel_def)
    from frame(3) [of ?st1 ob fuel v] shape_wf [OF sh wf] ob fu t cv obtain st2 where
      u: "updateValue fuel ob v ?st1 = Some st2"
      and r2: "rel ob ob (round (change_listeners (objs st ob)) v) ?st1 st2"
      and o: "objs st2 ob = (objs ?st1 ob)\<lparr>value_field := v\<rparr>"
      by auto
    from rel_trans [OF r1 r2] have r: "rel ob ob (round (change_listeners (objs st ob)) v) st st2"
      by simp
    then have sh2: "shape st st2" by (simp add: rel_def)
    from Some t nb u have "set_value fuel ob v st = Some st2" by (simp add: set_value.simps)
    moreover from o sh2 nb have "get_value (objs st2 ob) = v" "direct st2 ob"
      by (simp_all add: get_value_def direct_def synced_at_def shape_def)
    ultimately show ?thesis using True r by auto
  qed
qed

text \<open>
  A sequence of writes to an observable whose writes notify at once: the writes that
  notify are those whose value is \<^verbatim>\<open>!==\<close> the value held just before.
\<close>

lemma writes_direct:
  assumes "wf_state st" and "ob < next_id st" and "next_id st \<le> fuel + Suc ob"
    and "direct st ob"
  shows "\<exists>st' evs. exec fuel (map (Write ob) vs) st = Some (False, st') \<and>
           trace st' = trace st @ evs \<and>
           events_at ob evs =
             concat (map (\<lambda>(new, held). if strict_ne new held
                                         then round (change_listeners (objs st ob)) new else [])
                       (zip vs (get_value (objs st ob) # vs))) \<and>
           length (filter (\<lambda>h. fst h = None) (events_at ob evs)) =
             length (filter (\<lambda>(new, held). strict_ne new held) (zip vs (get_value (objs st ob) # vs))) \<and>
           get_value (objs st' ob) = last (get_value (objs st ob) # vs)"
  using assms
proof (induction vs arbitrary: st)
  case Nil
  then show ?case by simp
next
  case (Cons v vs)
  from write_direct [OF Cons.prems, of v] obtain st1 where
    s: "set_value fuel ob v st = Some st1"
    and r1: "rel ob ob (if strict_ne v (get_value (objs st ob))
                        then round (change_listeners (objs st ob)) v else []) st st1"
    and g1: "get_value (objs st1 ob) = v" and d1: "direct st1 ob"
    by blast
  from r1 obtain e1 where sh: "shape st st1"
    and t1: "trace st1 = trace st @ e1"
    and a1: "events_at ob e1 = (if strict_ne v (get_value (objs st ob))
                               then round (change_listeners (objs st ob)) v else [])"
    unfolding rel_def by blast
  from sh have n1: "next_id st1 = next_id st"
    and l1: "change_listeners (objs st1 ob) = change_listeners (objs st ob)"
    by (simp_all add: shape_def)
  from Cons.IH [OF shape_wf [OF sh Cons.prems(1)], unfolded n1 l1 g1, OF Cons.prems(2,3) d1]
  obtain st2 e2 where
    x: "exec fuel (map (Write ob) vs) st1 = Some (False, st2)"
    and t2: "trace st2 = trace st1 @ e2"
    and a2: "events_at ob e2 =
             concat (map (\<lambda>(new, held). if strict_ne new held
                                         then round (change_listeners (objs st ob)) new else [])
                       (zip vs (v # vs)))"
    and c2: "length (filter (\<lambda>h. fst h = None) (events_at ob e2)) =
             length (filter (\<lambda>(new, held). strict_ne new held) (zip vs (v # vs)))"
    and g2: "get_value (objs st2 ob) = last (v # vs)"
    by blast
  have "exec fuel (map (Write ob) (v # vs)) st = Some (False, st2)" using s x by simp
  moreover have "trace st2 = trace st @ (e1 @ e2)" using t1 t2 by simp
  moreover have "events_at ob (e1 @ e2) =
             concat (map (\<lambda>(new, held). if strict_ne new held
                                         then round (change_listeners (objs st ob)) new else [])
                       (zip (v # vs) (get_value (objs st ob) # v # vs)))"
    using a1 a2 by simp
  moreover have "length (filter (\<lambda>h. fst h = None) (events_at ob (e1 @ e2))) =
             length (filter (\<lambda>(new, held). strict_ne new held) (zip (v # vs) (get_value (objs st ob) # v # vs)))"
    using a1 c2 by (simp add: round_def filter_map comp_def)
  moreover have "get_value (objs st2 ob) = last (get_value (objs st ob) # v # vs)" using g2 by simp
  ultimately show ?case by blast
qed

lemma step_refl: "step c srcs f lo st st"
  by (simp add: step_def shape_refl)

lemma step_trans:
  "step c srcs f lo a b \<Longrightarrow> step c srcs f lo b d \<Longrightarrow> step c srcs f lo a d"
  unfolding step_def by (fastforce intro: shape_trans)

lemma step_mono: "step c srcs f hi st st' \<Longrightarrow> lo \<le> hi \<Longrightarrow> step c srcs f lo st st'"
  unfolding step_def by auto

lemma ready_shape:
  "ready c srcs f fuel ob st \<Longrightarrow> shape st st' \<Longrightarrow> ready c srcs f fuel ob st'"
  unfolding ready_def
  by (auto simp: shape_def intro: shape_wf shape_computed)

lemma synced_trace [simp]: "synced (st\<lparr>trace := t\<rparr>) = synced st"
  by (simp add: synced_iff synced_at_def)

lemma snapshot_nth: "p < next_id st \<Longrightarrow> snapshot st ! p = get_value (objs st p)"
  by (simp add: snapshot_def)

lemma srcvals_snapshot:
  "list_all (\<lambda>s. s < c) srcs \<Longrightarrow> c < next_id st \<Longrightarrow>
     map (\<lambda>s. snapshot st ! s) srcs = srcvals st srcs"
  by (induction srcs) (auto simp: srcvals_def snapshot_nth)

lemma srcvals_frame:
  "list_all (\<lambda>s. s < c) srcs \<Longrightarrow> \<forall>q<c. objs st' q = objs st q \<Longrightarrow> srcvals st' srcs = srcvals st srcs"
  by (induction srcs) (auto simp: srcvals_def)

lemma is_computed_listeners:
  "is_computed st c srcs f \<Longrightarrow> p < next_id st \<Longrightarrow>
     list_all (recomputes c srcs f) (change_listeners (objs st p))"
  by (auto simp: is_computed_def list_all_iff)

lemma good_subscriber:
  assumes "is_computed st c srcs f" "ob = c \<longrightarrow> get_value (objs st c) = v \<and> v = f (srcvals st srcs)"
  shows "consistent_event c srcs f (Notified ob t v (snapshot st))"
proof (cases "ob = c")
  case False
  then show ?thesis by simp
next
  case True
  from assms(1) have c: "c < next_id st" and s: "list_all (\<lambda>s. s < c) srcs"
    by (simp_all add: is_computed_def)
  from True assms(2) show ?thesis
    by (simp add: snapshot_nth [OF c] srcvals_snapshot [OF s c])
qed

text \<open>The state right after the new value has been stored, before the listeners run.\<close>

lemma stored:
  assumes r: "ready c srcs f fuel ob st"
    and sy: "\<forall>p<next_id st. p \<noteq> ob \<longrightarrow> synced_at st p"
    and cur: "current (objs st ob) = None \<or> current (objs st ob) = Some v"
    and cv: "ob = c \<longrightarrow> v = f (srcvals st srcs)"
    and st1: "st1 = st\<lparr>objs := (objs st)(ob := (objs st ob)\<lparr>value_field := v\<rparr>),
                     trace := trace st @ [Emitted ob v]\<rparr>"
  shows "ready c srcs f fuel ob st1" and "synced st1" and "step c srcs f ob st st1"
    and "list_all (wf_listener (next_id st1) ob) (change_listeners (objs st ob))"
    and "list_all (recomputes c srcs f) (change_listeners (objs st ob))"
    and "ob = c \<longrightarrow> get_value (objs st1 c) = v \<and> v = f (srcvals st1 srcs)"
proof -
  have sh: "shape st st1" by (simp add: st1 shape_def)
  show "ready c srcs f fuel ob st1" using ready_shape [OF r sh] .
  show "synced st1" using sy cur by (auto simp: st1 synced_iff synced_at_def get_value_def)
  show "step c srcs f ob st st1" using sh by (simp add: step_def) (simp add: st1)
  from r have ob: "ob < next_id st" and wf: "wf_state st" and ic: "is_computed st c srcs f"
    by (simp_all add: ready_def)
  show "list_all (wf_listener (next_id st1) ob) (change_listeners (objs st ob))"
    using wf_state_listeners [OF wf ob] by (simp add: st1)
  show "list_all (recomputes c srcs f) (change_listeners (objs st ob))"
    using is_computed_listeners [OF ic ob] .
  show "ob = c \<longrightarrow> get_value (objs st1 c) = v \<and> v = f (srcvals st1 srcs)"
  proof
    assume e: "ob = c"
    from ic have s: "list_all (\<lambda>s. s < c) srcs" by (simp add: is_computed_def)
    have "srcvals st1 srcs = srcvals st srcs"
      by (rule srcvals_frame [OF s]) (simp add: e st1)
    with cv e cur show "get_value (objs st1 c) = v \<and> v = f (srcvals st1 srcs)"
      by (auto simp: get_value_def st1)
  qed
qed

lemma consistent_frame:
  "objs st' c = objs st c \<Longrightarrow> \<forall>s \<in> set srcs. objs st' s = objs st s \<Longrightarrow>
     consistent st' c srcs f = consistent st c srcs f"
proof -
  assume a: "objs st' c = objs st c" and b: "\<forall>s \<in> set srcs. objs st' s = objs st s"
  from b have "srcvals st' srcs = srcvals st srcs" by (simp add: srcvals_def)
  with a show ?thesis by (simp add: consistent_def)
qed

lemma consistent_below:
  "list_all (\<lambda>s. s < c) srcs \<Longrightarrow> \<forall>q<Suc c. objs st' q = objs st q \<Longrightarrow>
     consistent st' c srcs f = consistent st c srcs f"
  by (rule consistent_frame) (auto simp: list_all_iff)

lemma consistent_other:
  "ob \<noteq> c \<Longrightarrow> ob \<notin> set srcs \<Longrightarrow> \<forall>q. q \<noteq> ob \<longrightarrow> objs st' q = objs st q \<Longrightarrow>
     consistent st' c srcs f = consistent st c srcs f"
  by (rule consistent_frame) auto

lemma subscribed_shape: "shape st st' \<Longrightarrow> subscribed st' c srcs = subscribed st c srcs"
  by (simp add: subscribed_def shape_def)

lemma subscribed_source:
  "subscribed st c srcs \<Longrightarrow> ob \<in> set srcs \<Longrightarrow> list_ex (targets c) (change_listeners (objs st ob))"
  by (simp add: subscribed_def list_all_iff)

lemma stored_consistent:
  assumes "st1 = st\<lparr>objs := (objs st)(ob := (objs st ob)\<lparr>value_field := v\<rparr>),
                     trace := trace st @ [Emitted ob v]\<rparr>"
    and "ob \<noteq> c" and "ob \<notin> set srcs"
  shows "consistent st1 c srcs f = consistent st c srcs f"
  by (rule consistent_other [OF assms(2,3)]) (simp add: assms(1))

lemma glitch_free:
  fixes c :: nat and srcs :: "nat list" and f :: "val list \<Rightarrow> val"
  shows
  "ready c srcs f fuel ob st \<longrightarrow> synced st \<longrightarrow>
     list_all (wf_listener (next_id st) ob) ls \<longrightarrow> list_all (recomputes c srcs f) ls \<longrightarrow>
     (ob = c \<longrightarrow> get_value (objs st c) = v \<and> v = f (srcvals st srcs)) \<longrightarrow>
     ok c srcs f (Suc ob) st (emit_change fuel ob ls v st)
       (consistent st c srcs f \<or> list_ex (targets c) ls)"
  and
  "ready c srcs f fuel ob st \<longrightarrow> synced st \<longrightarrow>
     wf_listener (next_id st) ob l \<longrightarrow> recomputes c srcs f l \<longrightarrow>
     (ob = c \<longrightarrow> get_value (objs st c) = v \<and> v = f (srcvals st srcs)) \<longrightarrow>
     ok c srcs f (Suc ob) st (invoke fuel ob l v st) (consistent st c srcs f \<or> targets c l)"
  and
  "ready c srcs f fuel ob st \<longrightarrow>
     (\<forall>p<next_id st. p \<noteq> ob \<longrightarrow> synced_at st p) \<longrightarrow>
     (current (objs st ob) = None \<or> current (objs st ob) = Some v) \<longrightarrow>
     (ob = c \<longrightarrow> v = f (srcvals st srcs)) \<longrightarrow>
     ok c srcs f ob st (updateValue fuel ob v st)
       (consistent st c srcs f \<or> ob = c \<or>
        (ob \<in> set srcs \<and> strict_ne v (value_field (objs st ob))))"
  and
  "ready c srcs f fuel ob st \<longrightarrow> synced st \<longrightarrow>
     (ob = c \<longrightarrow> v = f (srcvals st srcs)) \<longrightarrow>
     ok c srcs f ob st (set_value fuel ob v st) (consistent st c srcs f \<or> ob = c)"
proof (induction fuel ob ls v st and fuel ob l v st and fuel ob v st and fuel ob v st
       rule: emit_change_invoke_updateValue_set_value.induct)
  case (1 fuel ob v st)
  show ?case by (simp add: ok_def step_refl)
next
  case (2 fuel ob l ls v st)
  show ?case
  proof (intro impI)
    assume r: "ready c srcs f fuel ob st" and sy: "synced st"
      and w: "list_all (wf_listener (next_id st) ob) (l # ls)"
      and rc: "list_all (recomputes c srcs f) (l # ls)"
      and cv: "ob = c \<longrightarrow> get_value (objs st c) = v \<and> v = f (srcvals st srcs)"
    from "2.IH"(1) r sy w rc cv obtain st1 where
      i: "invoke fuel ob l v st = Some st1" and s1: "step c srcs f (Suc ob) st st1" and sy1: "synced st1"
      and k1: "subscribed st c srcs \<longrightarrow> consistent st c srcs f \<or> targets c l \<longrightarrow> consistent st1 c srcs f"
      by (auto simp: ok_def)
    from s1 have sh: "shape st st1" and fr: "\<forall>q<Suc ob. objs st1 q = objs st q"
      by (auto simp: step_def)
    have r1: "ready c srcs f fuel ob st1" using ready_shape [OF r sh] .
    have n1: "next_id st1 = next_id st" using sh by (simp add: shape_def)
    have cv1: "ob = c \<longrightarrow> get_value (objs st1 c) = v \<and> v = f (srcvals st1 srcs)"
    proof
      assume e: "ob = c"
      from r have "list_all (\<lambda>s. s < c) srcs" by (simp add: ready_def is_computed_def)
      from srcvals_frame [OF this, of st1 st] fr e have "srcvals st1 srcs = srcvals st srcs" by simp
      with cv e fr show "get_value (objs st1 c) = v \<and> v = f (srcvals st1 srcs)" by simp
    qed
    from "2.IH"(2) [OF i] r1 sy1 w rc cv1 n1 obtain st2 where
      e2: "emit_change fuel ob ls v st1 = Some st2" and s2: "step c srcs f (Suc ob) st1 st2"
      and sy2: "synced st2"
      and k2: "subscribed st1 c srcs \<longrightarrow> consistent st1 c srcs f \<or> list_ex (targets c) ls \<longrightarrow>
               consistent st2 c srcs f"
      by (auto simp: ok_def)
    have k: "subscribed st c srcs \<longrightarrow> consistent st c srcs f \<or> list_ex (targets c) (l # ls) \<longrightarrow>
             consistent st2 c srcs f"
      using k1 k2 subscribed_shape [OF sh, of c srcs] by auto
    from i e2 step_trans [OF s1 s2] sy2 k
    show "ok c srcs f (Suc ob) st (emit_change fuel ob (l # ls) v st)
            (consistent st c srcs f \<or> list_ex (targets c) (l # ls))"
      by (simp add: ok_def)
  qed
next
  case (3 fuel ob t v st)
  show ?case
  proof (intro impI)
    assume r: "ready c srcs f fuel ob st" and sy: "synced st"
      and cv: "ob = c \<longrightarrow> get_value (objs st c) = v \<and> v = f (srcvals st srcs)"
    from r have "is_computed st c srcs f" by (simp add: ready_def)
    from good_subscriber [OF this cv] sy
    show "ok c srcs f (Suc ob) st (invoke fuel ob (Subscriber t) v st)
            (consistent st c srcs f \<or> targets c (Subscriber t))"
      by (simp add: ok_def step_def shape_def consistent_def srcvals_def)
  qed
next
  case (4 fuel ob n cb v st)
  show ?case by (simp add: ok_def step_def shape_def consistent_def srcvals_def)
next
  case (5 ob c' i observables transform v st)
  show ?case by (auto simp: ready_def)
next
  case (6 fuel ob c' i observables transform v st)
  show ?case
  proof (intro impI)
    assume r: "ready c srcs f (Suc fuel) ob st" and sy: "synced st"
      and w: "wf_listener (next_id st) ob (Recompute c' i observables transform)"
      and rc: "recomputes c srcs f (Recompute c' i observables transform)"
    let ?v = "transform (map (\<lambda>s. get_value (objs st s)) observables)"
    from r w have r': "ready c srcs f fuel c' st" by (auto simp: ready_def)
    from rc have cv: "c' = c \<longrightarrow> ?v = f (srcvals st srcs)" by (auto simp: srcvals_def)
    from "6.IH" r' sy cv
    have "ok c srcs f c' st (set_value fuel c' ?v st) (consistent st c srcs f \<or> c' = c)" by simp
    moreover from w have "Suc ob \<le> c'" by simp
    ultimately show "ok c srcs f (Suc ob) st
        (invoke (Suc fuel) ob (Recompute c' i observables transform) v st)
        (consistent st c srcs f \<or> targets c (Recompute c' i observables transform))"
      by (auto simp: ok_def intro: step_mono)
  qed
next
  case (7 fuel ob newValue st)
  show ?case
  proof (intro impI)
    assume r: "ready c srcs f fuel ob st"
      and sy: "\<forall>p<next_id st. p \<noteq> ob \<longrightarrow> synced_at st p"
      and cur: "current (objs st ob) = None \<or> current (objs st ob) = Some newValue"
      and cv: "ob = c \<longrightarrow> newValue = f (srcvals st srcs)"
    let ?k = "consistent st c srcs f \<or> ob = c \<or>
        (ob \<in> set srcs \<and> strict_ne newValue (value_field (objs st ob)))"
    show "ok c srcs f ob st (updateValue fuel ob newValue st) ?k"
    proof (cases "strict_ne newValue (value_field (objs st ob))")
      case False
      then have e: "newValue = value_field (objs st ob)" by (rule not_strict_ne)
      with sy cur have "synced st" by (auto simp: synced_iff synced_at_def get_value_def)
      moreover have "?k \<longrightarrow> consistent st c srcs f"
        using False cv cur e by (auto simp: consistent_def get_value_def)
      ultimately show ?thesis using False by (simp add: updateValue.simps ok_def step_refl)
    next
      case True
      let ?st1 = "st\<lparr>objs := (objs st)(ob := (objs st ob)\<lparr>value_field := newValue\<rparr>),
                     trace := trace st @ [Emitted ob newValue]\<rparr>"
      note s = stored [OF r sy cur cv refl]
      from "7.IH" [OF True] s(1,2,4,5,6) obtain st2 where
        e: "emit_change fuel ob (change_listeners (objs st ob)) newValue ?st1 = Some st2"
        and s2: "step c srcs f (Suc ob) ?st1 st2" and sy2: "synced st2"
        and k2: "subscribed ?st1 c srcs \<longrightarrow>
                 consistent ?st1 c srcs f \<or> list_ex (targets c) (change_listeners (objs st ob)) \<longrightarrow>
                 consistent st2 c srcs f"
        by (auto simp: ok_def)
      from s(3) have sh: "shape st ?st1" by (simp add: step_def)
      have k: "subscribed st c srcs \<longrightarrow> ?k \<longrightarrow> consistent st2 c srcs f"
      proof (intro impI)
        assume su: "subscribed st c srcs" and kk: ?k
        then have su1: "subscribed ?st1 c srcs" using subscribed_shape [OF sh, of c srcs] by simp
        show "consistent st2 c srcs f"
        proof (cases "ob = c")
          case True
          with s(6) have "consistent ?st1 c srcs f" by (simp add: consistent_def)
          with k2 su1 show ?thesis by simp
        next
          case nc: False
          show ?thesis
          proof (cases "ob \<in> set srcs")
            case True
            from subscribed_source [OF su True] k2 su1 show ?thesis by simp
          next
            case False
            from kk nc False have "consistent st c srcs f" by simp
            with stored_consistent [OF refl nc False, of st newValue f]
            have "consistent ?st1 c srcs f" by simp
            with k2 su1 show ?thesis by simp
          qed
        qed
      qed
      from step_trans [OF s(3) step_mono [OF s2]] have "step c srcs f ob st st2" by simp
      with True e sy2 k show ?thesis by (simp add: updateValue.simps ok_def)
    qed
  qed
next
  case (8 fuel ob newValue st)
  show ?case
  proof (intro impI)
    assume r: "ready c srcs f fuel ob st" and sy: "synced st"
      and cv: "ob = c \<longrightarrow> newValue = f (srcvals st srcs)"
    from r have ob: "ob < next_id st" and ic: "is_computed st c srcs f"
      and nb: "\<not> isBatching st"
      by (simp_all add: ready_def)
    from sy have sy': "\<forall>p<next_id st. p \<noteq> ob \<longrightarrow> synced_at st p" by (simp add: synced_iff)
    let ?k = "consistent st c srcs f \<or> ob = c"
    show "ok c srcs f ob st (set_value fuel ob newValue st) ?k"
    proof (cases "current (objs st ob)")
      case None
      show ?thesis
      proof (cases "strict_ne newValue (value_field (objs st ob))")
        case False
        from not_strict_ne [OF False] have e: "newValue = value_field (objs st ob)" .
        have "?k \<longrightarrow> consistent st c srcs f"
          using cv None e by (auto simp: consistent_def get_value_def)
        with False None sy show ?thesis by (simp add: set_value.simps ok_def step_refl)
      next
        case True
        let ?st1 = "st\<lparr>objs := (objs st)(ob := (objs st ob)\<lparr>value_field := newValue\<rparr>),
                       trace := trace st @ [Emitted ob newValue]\<rparr>"
        from None have cur: "current (objs st ob) = None \<or> current (objs st ob) = Some newValue" by simp
        note s = stored [OF r sy' cur cv refl]
        from "8.IH"(1) [OF None True] s(1,2,4,5,6) obtain st2 where
          e: "emit_change fuel ob (change_listeners (objs st ob)) newValue ?st1 = Some st2"
          and s2: "step c srcs f (Suc ob) ?st1 st2" and sy2: "synced st2"
          and k2: "subscribed ?st1 c srcs \<longrightarrow>
                   consistent ?st1 c srcs f \<or> list_ex (targets c) (change_listeners (objs st ob)) \<longrightarrow>
                   consistent st2 c srcs f"
          by (auto simp: ok_def)
        from s(3) have sh: "shape st ?st1" by (simp add: step_def)
        have k: "subscribed st c srcs \<longrightarrow> ?k \<longrightarrow> consistent st2 c srcs f"
        proof (intro impI)
          assume su: "subscribed st c srcs" and kk: ?k
          then have su1: "subscribed ?st1 c srcs" using subscribed_shape [OF sh, of c srcs] by simp
          show "consistent st2 c srcs f"
          proof (cases "ob = c")
            case True
            with s(6) have "consistent ?st1 c srcs f" by (simp add: consistent_def)
            with k2 su1 show ?thesis by simp
          next
            case nc: False
            show ?thesis
            proof (cases "ob \<in> set srcs")
              case True
              from subscribed_source [OF su True] k2 su1 show ?thesis by simp
            next
              case False
              from kk nc have "consistent st c srcs f" by simp
              with stored_consistent [OF refl nc False, of st newValue f]
              have "consistent ?st1 c srcs f" by simp
              with k2 su1 show ?thesis by simp
            qed
          qed
        qed
        from step_trans [OF s(3) step_mono [OF s2]] have "step c srcs f ob st st2" by simp
        with None True e sy2 k show ?thesis by (simp add: set_value.simps ok_def)
      qed
    next
      case (Some currentValue)
      from sy ob Some have cvv: "currentValue = value_field (objs st ob)"
        by (auto simp: synced_iff synced_at_def get_value_def)
      show ?thesis
      proof (cases "strict_ne newValue currentValue")
        case False
        from not_strict_ne [OF False] have e: "newValue = currentValue" .
        have "?k \<longrightarrow> consistent st c srcs f"
          using cv Some e by (auto simp: consistent_def get_value_def)
        with False Some sy show ?thesis by (simp add: set_value.simps ok_def step_refl)
      next
        case True
        let ?st1 = "st\<lparr>objs := (objs st)(ob := (objs st ob)\<lparr>current := Some newValue\<rparr>)\<rparr>"
        have sh: "shape st ?st1" using Some by (simp add: shape_def)
        have r1: "ready c srcs f fuel ob ?st1" using ready_shape [OF r sh] .
        have sy1: "\<forall>p<next_id ?st1. p \<noteq> ob \<longrightarrow> synced_at ?st1 p"
          using sy by (auto simp: synced_iff synced_at_def)
        have cur1: "current (objs ?st1 ob) = None \<or> current (objs ?st1 ob) = Some newValue" by simp
        have cv1: "ob = c \<longrightarrow> newValue = f (srcvals ?st1 srcs)"
        proof
          assume e: "ob = c"
          from ic have s: "list_all (\<lambda>s. s < c) srcs" by (simp add: is_computed_def)
          have "srcvals ?st1 srcs = srcvals st srcs"
            by (rule srcvals_frame [OF s]) (simp add: e)
          with cv e show "newValue = f (srcvals ?st1 srcs)" by simp
        qed
        from "8.IH"(2) [OF Some True nb] r1 sy1 cur1 cv1 obtain st2 where
          e: "updateValue fuel ob newValue ?st1 = Some st2"
          and s2: "step c srcs f ob ?st1 st2" and sy2: "synced st2"
          and k2: "subscribed ?st1 c srcs \<longrightarrow>
                   consistent ?st1 c srcs f \<or> ob = c \<or>
                   (ob \<in> set srcs \<and> strict_ne newValue (value_field (objs ?st1 ob))) \<longrightarrow>
                   consistent st2 c srcs f"
          by (auto simp: ok_def)
        have k: "subscribed st c srcs \<longrightarrow> ?k \<longrightarrow> consistent st2 c srcs f"
        proof (intro impI)
          assume su: "subscribed st c srcs" and kk: ?k
          then have su1: "subscribed ?st1 c srcs" using subscribed_shape [OF sh, of c srcs] by simp
          show "consistent st2 c srcs f"
          proof (cases "ob = c")
            case True
            with k2 su1 show ?thesis by simp
          next
            case nc: False
            show ?thesis
            proof (cases "ob \<in> set srcs")
              case True
              with k2 su1 \<open>strict_ne newValue currentValue\<close> cvv show ?thesis by simp
            next
              case False
              from kk nc have "consistent st c srcs f" by simp
              moreover have "consistent ?st1 c srcs f = consistent st c srcs f"
                by (rule consistent_other [OF nc False]) simp
              ultimately show ?thesis using k2 su1 by simp
            qed
          qed
        qed
        have s1: "step c srcs f ob st ?st1"
          using sh by (simp add: step_def)
        from step_trans [OF s1 s2] have "step c srcs f ob st st2" .
        with Some True nb e sy2 k show ?thesis by (simp add: set_value.simps ok_def)
      qed
    qed
  qed
qed

text \<open>
  The states of the theorems below are the states the library builds. The empty state
  is well formed and in sync, and creating an observable or a signal, subscribing a
  callback and unsubscribing keep it so. \<^verbatim>\<open>computed\<close> over existing sources
  returns a new observable that is the computed value of these sources, subscribed to
  each of them and up to date.
\<close>

lemma subscribe_all_listeners:
  "change_listeners (objs (subscribe_all subs st) p) =
     change_listeners (objs st p) @ map snd (filter (\<lambda>x. fst x = p) subs)"
  by (induction subs st rule: subscribe_all.induct) (auto simp: subscribe_def)

lemma subscribe_all_fields:
  "value_field (objs (subscribe_all subs st) p) = value_field (objs st p)"
  "current (objs (subscribe_all subs st) p) = current (objs st p)"
  "next_id (subscribe_all subs st) = next_id st"
  "isBatching (subscribe_all subs st) = isBatching st"
  "updateQueue (subscribe_all subs st) = updateQueue st"
  "trace (subscribe_all subs st) = trace st"
  by (induction subs st rule: subscribe_all.induct) (auto simp: subscribe_def)

lemma wf_listener_mono: "wf_listener n p l \<Longrightarrow> n \<le> m \<Longrightarrow> wf_listener m p l"
  by (cases l) auto

lemma wf_listener_Suc: "wf_listener n p l \<Longrightarrow> wf_listener (Suc n) p l"
  by (cases l) auto

lemma get_value_cong:
  "current a = current b \<Longrightarrow> value_field a = value_field b \<Longrightarrow> get_value a = get_value b"
  by (simp add: get_value_def split: option.splits)

lemma get_value_None: "current a = None \<Longrightarrow> get_value a = value_field a"
  by (simp add: get_value_def)

lemma wf_init_state: "wf_state init_state" "synced init_state"
  by (simp_all add: wf_state_def synced_def init_state_def)

lemma wf_state_iff:
  "wf_state st = (\<forall>p<next_id st. \<forall>l \<in> set (change_listeners (objs st p)). wf_listener (next_id st) p l)"
  by (auto simp: wf_state_def list_all_iff)

lemma wf_new_observable:
  "wf_state st \<Longrightarrow> wf_state (snd (new_observable v st))"
  "synced st \<Longrightarrow> synced (snd (new_observable v st))"
  by (auto simp: wf_state_iff synced_iff synced_at_def get_value_def new_observable_def less_Suc_eq
           intro: wf_listener_Suc split: option.splits)

lemma wf_signal:
  "wf_state st \<Longrightarrow> wf_state (snd (signal v st))"
  "synced st \<Longrightarrow> synced (snd (signal v st))"
  by (auto simp: wf_state_iff synced_iff synced_at_def get_value_def signal_def new_observable_def
                 less_Suc_eq intro: wf_listener_Suc split: option.splits)

lemma wf_signal_of:
  "signal_of ob st = Inr st' \<Longrightarrow> wf_state st \<Longrightarrow> wf_state st'"
  "signal_of ob st = Inr st' \<Longrightarrow> synced st \<Longrightarrow> synced st'"
  by (auto simp: wf_state_iff synced_iff synced_at_def get_value_def signal_of_def
           split: option.splits if_splits)

lemma signal_of_twice:
  "signal_of ob st = Inr st' \<Longrightarrow>
     signal_of ob st' = Inl (TypeError ''Cannot redefine property: value'')"
  by (auto simp: signal_of_def split: option.splits)

lemma wf_subscribe:
  "wf_state st \<Longrightarrow> wf_listener (next_id st) ob l \<Longrightarrow> wf_state (subscribe ob l st)"
  "synced st \<Longrightarrow> synced (subscribe ob l st)"
  by (auto simp: wf_state_iff synced_iff synced_at_def get_value_def subscribe_def split: option.splits)

lemma wf_unsubscribe:
  "wf_state st \<Longrightarrow> wf_state (unsubscribe ob l st)"
  "synced st \<Longrightarrow> synced (unsubscribe ob l st)"
  by (auto simp: wf_state_iff synced_iff synced_at_def get_value_def unsubscribe_def split: option.splits)

lemma computed_establishes:
  assumes wf: "wf_state st" and src: "list_all (\<lambda>s. s < next_id st) srcs"
  shows "case computed srcs f st of (c, subs, st') \<Rightarrow>
           c = next_id st \<and> next_id st' = Suc c \<and> wf_state st' \<and> is_computed st' c srcs f \<and>
           subscribed st' c srcs \<and> consistent st' c srcs f \<and> (synced st \<longrightarrow> synced st') \<and>
           isBatching st' = isBatching st"
proof -
  let ?c = "next_id st"
  let ?v = "f (map (\<lambda>s. get_value (objs st s)) srcs)"
  let ?st1 = "snd (new_observable ?v st)"
  let ?subs = "map (\<lambda>(s, i). (s, Recompute ?c i srcs f)) (zip srcs [0..<length srcs])"
  let ?st' = "subscribe_all ?subs ?st1"
  have comp: "computed srcs f st = (?c, ?subs, ?st')"
    by (simp add: computed_def new_observable_def Let_def)
  have o1: "objs ?st1 = (objs st)(?c := \<lparr>value_field = ?v, change_listeners = [], current = None\<rparr>)"
    and n1: "next_id ?st1 = Suc ?c" and b1: "isBatching ?st1 = isBatching st"
    by (simp_all add: new_observable_def)
  have n': "next_id ?st' = Suc ?c" by (simp add: subscribe_all_fields n1)
  have new: "\<And>p l. l \<in> set (map snd (filter (\<lambda>x. fst x = p) ?subs)) \<Longrightarrow>
      (\<exists>i. l = Recompute ?c i srcs f) \<and> p \<in> set srcs"
    by (auto dest: set_zip_leftD)
  have ls: "\<And>p. change_listeners (objs ?st' p) =
      (if p = ?c then [] else change_listeners (objs st p)) @ map snd (filter (\<lambda>x. fst x = p) ?subs)"
    by (simp add: subscribe_all_listeners o1)
  have lt: "\<And>s. s \<in> set srcs \<Longrightarrow> s < ?c" using src by (simp add: list_all_iff)
  have split: "(p \<noteq> ?c \<and> l \<in> set (change_listeners (objs st p))) \<or>
      ((\<exists>i. l = Recompute ?c i srcs f) \<and> p \<in> set srcs)"
    if "l \<in> set (change_listeners (objs ?st' p))" for p l
  proof -
    from that have "l \<in> set (if p = ?c then [] else change_listeners (objs st p)) \<or>
        l \<in> set (map snd (filter (\<lambda>x. fst x = p) ?subs))"
      unfolding ls set_append Un_iff .
    then show ?thesis
    proof
      assume a: "l \<in> set (if p = ?c then [] else change_listeners (objs st p))"
      then have "p \<noteq> ?c" by (auto split: if_splits)
      with a show ?thesis by simp
    next
      assume "l \<in> set (map snd (filter (\<lambda>x. fst x = p) ?subs))"
      from new [OF this] show ?thesis by blast
    qed
  qed
  have wf': "wf_state ?st'"
    unfolding wf_state_iff n'
  proof (intro allI impI ballI)
    fix p l assume p: "p < Suc ?c" and l: "l \<in> set (change_listeners (objs ?st' p))"
    from split [OF l] consider
      (old) "p \<noteq> ?c" "l \<in> set (change_listeners (objs st p))"
      | (new) "(\<exists>i. l = Recompute ?c i srcs f) \<and> p \<in> set srcs"
      by blast
    then show "wf_listener (Suc ?c) p l"
    proof cases
      case old
      with p wf have "wf_listener ?c p l" by (simp add: wf_state_iff)
      then show ?thesis by (rule wf_listener_mono) simp
    next
      case new
      with lt show ?thesis by auto
    qed
  qed
  have ic: "is_computed ?st' ?c srcs f"
    unfolding is_computed_def n'
  proof (intro conjI)
    show "?c < Suc ?c" by simp
    show "list_all (\<lambda>s. s < ?c) srcs" by (rule src)
    show "list_all (\<lambda>p. list_all (recomputes ?c srcs f) (change_listeners (objs ?st' p))) [0..<Suc ?c]"
      unfolding list_all_iff
    proof (intro ballI)
      fix p l assume p: "p \<in> set [0..<Suc ?c]" and l: "l \<in> set (change_listeners (objs ?st' p))"
      from split [OF l] consider
      (old) "p \<noteq> ?c" "l \<in> set (change_listeners (objs st p))"
      | (new) "(\<exists>i. l = Recompute ?c i srcs f) \<and> p \<in> set srcs"
      by blast
      then show "recomputes ?c srcs f l"
      proof cases
        case old
        with p wf have "wf_listener ?c p l" by (simp add: wf_state_iff)
        then show ?thesis by (cases l) auto
      next
        case new
      then show ?thesis by auto
      qed
    qed
  qed
  have su: "subscribed ?st' ?c srcs"
    unfolding subscribed_def list_all_iff list_ex_iff
  proof (intro ballI)
    fix s assume s: "s \<in> set srcs"
    then obtain i where i: "i < length srcs" "srcs ! i = s" by (auto simp: in_set_conv_nth)
    then have "(s, i) \<in> set (zip srcs [0..<length srcs])"
      by (auto simp: in_set_zip intro!: exI [of _ i])
    then have "Recompute ?c i srcs f \<in> set (map snd (filter (\<lambda>x. fst x = s) ?subs))"
      by force
    then have "Recompute ?c i srcs f \<in> set (change_listeners (objs ?st' s))" by (simp add: ls)
    then show "\<exists>l \<in> set (change_listeners (objs ?st' s)). targets ?c l"
      by (intro bexI [of _ "Recompute ?c i srcs f"]) simp_all
  qed
  have gv: "get_value (objs ?st' p) = (if p = ?c then ?v else get_value (objs st p))" for p
  proof (cases "p = ?c")
    case True
    then have "current (objs ?st' p) = None" "value_field (objs ?st' p) = ?v"
      by (simp_all add: subscribe_all_fields o1)
    with True show ?thesis by (simp add: get_value_None)
  next
    case False
    then have "get_value (objs ?st' p) = get_value (objs st p)"
      by (intro get_value_cong) (simp_all add: subscribe_all_fields o1)
    with False show ?thesis by (simp only: if_False)
  qed
  have vf: "\<And>p. value_field (objs ?st' p) = (if p = ?c then ?v else value_field (objs st p))"
    by (simp add: subscribe_all_fields o1)
  have "srcvals ?st' srcs = map (\<lambda>s. get_value (objs st s)) srcs"
    unfolding srcvals_def using lt by (intro map_cong) (auto simp: gv)
  then have co: "consistent ?st' ?c srcs f" by (simp add: consistent_def gv)
  have sy: "synced st \<longrightarrow> synced ?st'"
    by (auto simp: synced_iff synced_at_def n' gv vf less_Suc_eq)
  have b: "isBatching ?st' = isBatching st" by (simp add: subscribe_all_fields b1)
  from wf' ic su co sy b n' show ?thesis unfolding comp by simp
qed

text \<open>
  Claim C3. Let \<open>c\<close> be the computed value of \<open>observables\<close> under \<open>transform\<close>, in a
  state with no batch open and every observable in sync. A write to any other
  observable \<open>s\<close>, a source of \<open>c\<close> in particular, returns, and whenever a
  subscriber of \<open>c\<close> is called in its course, the value of \<open>c\<close> is the argument of the
  call and equals \<open>transform\<close> of the values all the sources have at that moment.
  When \<open>c\<close> was up to date before the write and is still subscribed to its sources,
  it is up to date when the write returns.
\<close>

theorem computed_consistent_when_notified:
  assumes "wf_state st" and "synced st" and "\<not> isBatching st"
    and "is_computed st c observables transform"
    and "s < next_id st" and "s \<noteq> c" and "next_id st \<le> fuel + Suc s"
  shows "\<exists>st' evs. set_value fuel s v st = Some st' \<and> trace st' = trace st @ evs \<and>
           list_all (consistent_event c observables transform) evs \<and>
           (subscribed st c observables \<and> consistent st c observables transform \<longrightarrow>
              consistent st' c observables transform)"
proof -
  from assms have "ready c observables transform fuel s st" by (simp add: ready_def)
  with glitch_free(4) [of c observables transform fuel s st v] assms(2,6)
  have "ok c observables transform s st (set_value fuel s v st)
          (consistent st c observables transform \<or> s = c)" by simp
  then show ?thesis by (auto simp: ok_def step_def)
qed

theorem computed_consistent_when_notified_witness:
  "wf_state demo_graph \<and> synced demo_graph \<and> \<not> isBatching demo_graph \<and>
   is_computed demo_graph 3 [0, 2] add_nums \<and> 0 < next_id demo_graph \<and> (0::nat) \<noteq> 3 \<and>
   next_id demo_graph \<le> 3 + Suc 0 \<and>
   subscribed demo_graph 3 [0, 2] \<and> consistent demo_graph 3 [0, 2] add_nums \<and>
   (\<exists>st' evs. set_value 3 0 (Num 5) demo_graph = Some st' \<and> trace st' = trace demo_graph @ evs \<and>
      list_all (consistent_event 3 [0, 2] add_nums) evs \<and>
      consistent st' 3 [0, 2] add_nums \<and>
      evs = [Emitted 0 (Num 5), Emitted 2 (Num 7), Emitted 3 (Num 12),
             Notified 3 1 (Num 12) [Num 5, Num 2, Num 7, Num 12],
             Notified 2 0 (Num 7) [Num 5, Num 2, Num 7, Num 12],
             Notified 0 2 (Num 5) [Num 5, Num 2, Num 7, Num 12]])"
proof -
  have n: "0 < next_id demo_graph" "next_id demo_graph \<le> 3 + Suc 0" "\<not> isBatching demo_graph"
    by (simp_all add: demo_graph_def)
  have t: "trace demo_graph = []" by (simp add: demo_graph_def)
  have su: "subscribed demo_graph 3 [0, 2]"
    by (simp add: subscribed_def demo_graph_def)
  have co: "consistent demo_graph 3 [0, 2] add_nums"
    by (simp add: consistent_def srcvals_def get_value_def demo_graph_def add_nums_def)
  from computed_consistent_when_notified [OF demo_wf demo_synced n(3) demo_computed n(1) _ n(2), of "Num 5"]
    su co
  obtain st' evs where
    "set_value 3 0 (Num 5) demo_graph = Some st'" "trace st' = trace demo_graph @ evs"
    "list_all (consistent_event 3 [0, 2] add_nums) evs" "consistent st' 3 [0, 2] add_nums"
    by auto
  with demo_run t show ?thesis
    using demo_wf demo_synced demo_computed n su co by auto
qed

section \<open>Properties of batches\<close>

lemma in_batch_simps [simp]:
  "updateQueue (in_batch st s cur q tr) = q"
  "trace (in_batch st s cur q tr) = tr"
  "isBatching (in_batch st s cur q tr) = True"
  "next_id (in_batch st s cur q tr) = next_id st"
  "objs (in_batch st s cur q tr) = (objs st)(s := (objs st s)\<lparr>current := Some cur\<rparr>)"
  by (simp_all add: in_batch_def)

lemma changes_Cons: "changes held (v # vs) = (strict_ne v held \<or> changes v vs)"
  by (simp add: changes_def)

lemma no_changes: "\<not> changes held vs \<Longrightarrow> vs \<noteq> [] \<Longrightarrow> last vs = held \<and> \<not> strict_ne (last vs) held"
proof (induction vs arbitrary: held)
  case Nil
  then show ?case by simp
next
  case (Cons v vs)
  from Cons.prems have a: "\<not> strict_ne v held" and b: "\<not> changes v vs" by (simp_all add: changes_Cons)
  from not_strict_ne [OF a] have e: "v = held" .
  show ?case
  proof (cases "vs = []")
    case True
    with a e show ?thesis by simp
  next
    case False
    from Cons.IH [OF b False] have "last vs = v" "\<not> strict_ne v v" by auto
    with e False show ?thesis by simp
  qed
qed

lemma body_in_batch:
  "exec fuel (concat (map (\<lambda>v. [Write s v, Read s]) vs)) (in_batch st s cur q tr) =
     Some (False, in_batch st s (last (cur # vs)) (if changes cur vs then queue_add s q else q)
                    (tr @ map (ReadEv s) vs))"
proof (induction vs arbitrary: cur q tr)
  case Nil
  then show ?case by (simp add: changes_def)
next
  case (Cons v vs)
  show ?case
  proof (cases "strict_ne v cur")
    case True
    have w: "set_value fuel s v (in_batch st s cur q tr) = Some (in_batch st s v (queue_add s q) tr)"
      using True by (simp add: set_value.simps in_batch_def)
    have r: "exec_stmt fuel (Read s) (in_batch st s v (queue_add s q) tr) =
        Some (False, in_batch st s v (queue_add s q) (tr @ [ReadEv s v]))"
      by (simp add: in_batch_def get_value_def)
    have qq: "queue_add s (queue_add s q) = queue_add s q" by (simp add: queue_add_def)
    from w r Cons.IH [of v "queue_add s q" "tr @ [ReadEv s v]"] True show ?thesis
      by (simp add: changes_Cons qq)
  next
    case False
    from not_strict_ne [OF False] have e: "v = cur" .
    have w: "set_value fuel s v (in_batch st s cur q tr) = Some (in_batch st s cur q tr)"
      using False by (simp add: set_value.simps in_batch_def)
    have r: "exec_stmt fuel (Read s) (in_batch st s cur q tr) =
        Some (False, in_batch st s cur q (tr @ [ReadEv s v]))"
      by (simp add: in_batch_def get_value_def e)
    from w r Cons.IH [of cur q "tr @ [ReadEv s v]"] False e show ?thesis
      by (simp add: changes_Cons)
  qed
qed

lemma wf_state_cong:
  "wf_state st \<Longrightarrow> next_id st' = next_id st \<Longrightarrow>
     \<forall>p. change_listeners (objs st' p) = change_listeners (objs st p) \<Longrightarrow> wf_state st'"
  by (simp add: wf_state_def)

lemma demo_signal_built:
  "(case signal (Num 0) init_state of (s, st) \<Rightarrow> subscribe s (Subscriber 7) st) = demo_signal"
  by (simp add: signal_def new_observable_def init_state_def subscribe_def demo_signal_def)

lemmas run_simps = set_value.simps updateValue.simps get_value_def strict_ne_def queue_add_def
  snapshot_def

lemma writes_in_batch:
  "exec fuel (map (Write s) vs) (in_batch st s cur q tr) =
     Some (False, in_batch st s (last (cur # vs)) (if changes cur vs then queue_add s q else q) tr)"
proof (induction vs arbitrary: cur q)
  case Nil
  then show ?case by (simp add: changes_def)
next
  case (Cons v vs)
  show ?case
  proof (cases "strict_ne v cur")
    case True
    have w: "set_value fuel s v (in_batch st s cur q tr) = Some (in_batch st s v (queue_add s q) tr)"
      using True by (simp add: set_value.simps in_batch_def)
    have qq: "queue_add s (queue_add s q) = queue_add s q" by (simp add: queue_add_def)
    from w Cons.IH [of v "queue_add s q"] True show ?thesis
      by (simp add: changes_Cons qq)
  next
    case False
    from not_strict_ne [OF False] have e: "v = cur" .
    have w: "set_value fuel s v (in_batch st s cur q tr) = Some (in_batch st s cur q tr)"
      using False by (simp add: set_value.simps in_batch_def)
    from w Cons.IH [of cur q] False e show ?thesis
      by (simp add: changes_Cons)
  qed
qed

lemma in_batch_self:
  "current (objs st s) = Some cur \<Longrightarrow> isBatching st \<Longrightarrow>
     in_batch st s cur (updateQueue st) (trace st) = st"
proof -
  assume c: "current (objs st s) = Some cur" and b: "isBatching st"
  have "(objs st s)\<lparr>current := Some cur\<rparr> = objs st s" using c by (cases "objs st s") simp
  then have "(objs st)(s := (objs st s)\<lparr>current := Some cur\<rparr>) = objs st" by simp
  then show ?thesis using b by (simp add: in_batch_def)
qed


lemma demo_signal_simps:
  "next_id demo_signal = 1" "\<not> isBatching demo_signal" "updateQueue demo_signal = []"
  "trace demo_signal = []"
  "objs demo_signal 0 = \<lparr>value_field = Num 0, change_listeners = [Subscriber 7], current = Some (Num 0)\<rparr>"
  by (simp_all add: demo_signal_def)

lemma demo_signal_wf: "wf_state demo_signal"
  by (simp add: wf_state_def demo_signal_def)

text \<open>
  Claim C2, as stated, fails for a signal inside a batch: the two writes below both
  store a value that is \<^verbatim>\<open>!==\<close> the value held before, and neither emits; the
  trace is empty when the body ends, and the whole batch makes one \<^verbatim>\<open>emit\<close>, at
  the flush, for the two value-changing writes.
\<close>

theorem writes_in_batch_counterexample:
  "strict_ne (Num 1) (Num 0) \<and> strict_ne (Num 2) (Num 1) \<and>
   map_option (\<lambda>(threw, st'). (threw, trace st', get_value (objs st' 0)))
     (exec 0 (map (Write 0) [Num 1, Num 2]) (demo_signal\<lparr>isBatching := True\<rparr>))
   = Some (False, [], Num 2) \<and>
   map_option (\<lambda>(threw, st'). (threw, events_at 0 (trace st')))
     (batchUpdate 0 (map (Write 0) [Num 1, Num 2]) demo_signal)
   = Some (False, [(None, Num 2), (Some 7, Num 2)])"
  by (simp add: demo_signal_def run_simps)

text \<open>
  Claim C2, amended. For every sequence of writes \<open>vs\<close> through the \<^verbatim>\<open>value\<close> setter of
  an observable that has no notification pending, or while a batch is open: when the
  writes are not deferred (the class setter, in or outside a batch; the setter of a
  signal outside a batch), the writes that notify are exactly those whose value is
  \<^verbatim>\<open>!==\<close> the value held just before the write, which is the value written just
  before, or the initial one: each of them makes one \<^verbatim>\<open>emit\<close> that calls every
  subscriber once with the new value, the others record nothing at the observable, and
  the number of emits is the number of value-changing writes. When the writes are
  deferred (a signal, inside a batch), none of them emits: nothing is recorded,
  \<^verbatim>\<open>_value\<close> is left as it is, and the signal is in the queue when one of the
  writes changed the value. In both cases the observable then holds the last value
  written.
\<close>

theorem writes_notify_on_change:
  assumes "wf_state st" and "ob < next_id st" and "next_id st \<le> fuel + Suc ob"
    and "synced_at st ob \<or> isBatching st"
  shows "\<exists>st' evs. exec fuel (map (Write ob) vs) st = Some (False, st') \<and>
           trace st' = trace st @ evs \<and>
           events_at ob evs =
             (if deferred st ob then []
              else concat (map (\<lambda>(new, held). if strict_ne new held
                                               then round (change_listeners (objs st ob)) new else [])
                             (zip vs (get_value (objs st ob) # vs)))) \<and>
           length (filter (\<lambda>h. fst h = None) (events_at ob evs)) =
             (if deferred st ob then 0
              else length (filter (\<lambda>(new, held). strict_ne new held)
                             (zip vs (get_value (objs st ob) # vs)))) \<and>
           (deferred st ob \<longrightarrow>
              evs = [] \<and> value_field (objs st' ob) = value_field (objs st ob) \<and>
              (changes (get_value (objs st ob)) vs \<longrightarrow> ob \<in> set (updateQueue st'))) \<and>
           get_value (objs st' ob) = last (get_value (objs st ob) # vs)"
proof (cases "deferred st ob")
  case True
  then obtain cur where cur: "current (objs st ob) = Some cur" and b: "isBatching st"
    by (auto simp: deferred_def)
  let ?st' = "in_batch st ob (last (cur # vs))
                (if changes cur vs then queue_add ob (updateQueue st) else updateQueue st) (trace st)"
  from writes_in_batch [of fuel ob vs st cur "updateQueue st" "trace st"]
  have x: "exec fuel (map (Write ob) vs) st = Some (False, ?st')"
    by (simp add: in_batch_self [OF cur b])
  have g: "get_value (objs st ob) = cur" using cur by (simp add: get_value_def)
  have "trace ?st' = trace st @ []" by simp
  moreover have "value_field (objs ?st' ob) = value_field (objs st ob)" by simp
  moreover have "changes cur vs \<longrightarrow> ob \<in> set (updateQueue ?st')" by (simp add: queue_add_def)
  moreover have "get_value (objs ?st' ob) = last (cur # vs)" by (simp add: get_value_def)
  ultimately show ?thesis using x True g
    by (intro exI [of _ ?st'] exI [of _ "[]"]) simp
next
  case False
  with assms(4) have d: "direct st ob"
    by (auto simp: deferred_def direct_def synced_at_def get_value_def)
  from writes_direct [OF assms(1-3) d, of vs] False show ?thesis by auto
qed

theorem writes_notify_on_change_witness:
  "wf_state demo_graph \<and> 0 < next_id demo_graph \<and> next_id demo_graph \<le> 3 + Suc 0 \<and>
   (synced_at demo_graph 0 \<or> isBatching demo_graph) \<and>
   (\<exists>st' evs. exec 3 (map (Write 0) [Num 1, Num 5, Num 5, Num 6]) demo_graph = Some (False, st') \<and>
      trace st' = trace demo_graph @ evs \<and>
      events_at 0 evs = [(None, Num 5), (Some 2, Num 5), (None, Num 6), (Some 2, Num 6)] \<and>
      length (filter (\<lambda>h. fst h = None) (events_at 0 evs)) = 2 \<and>
      get_value (objs st' 0) = Num 6) \<and>
   wf_state (demo_signal\<lparr>isBatching := True\<rparr>) \<and>
   (\<exists>st'. exec 0 (map (Write 0) [Num 1, Num 2]) (demo_signal\<lparr>isBatching := True\<rparr>) = Some (False, st') \<and>
      trace st' = [] \<and> value_field (objs st' 0) = Num 0 \<and> 0 \<in> set (updateQueue st') \<and>
      get_value (objs st' 0) = Num 2)"
proof -
  have n: "0 < next_id demo_graph" "next_id demo_graph \<le> 3 + Suc 0"
    by (simp_all add: demo_graph_def)
  have sy: "synced_at demo_graph 0 \<or> isBatching demo_graph"
    by (simp add: synced_at_def get_value_def demo_obj0)
  have nd: "\<not> deferred demo_graph 0" by (simp add: deferred_def demo_graph_def)
  let ?b = "demo_signal\<lparr>isBatching := True\<rparr>"
  have wb: "wf_state ?b" by (rule wf_state_cong [OF demo_signal_wf]) simp_all
  have nb: "0 < next_id ?b" "next_id ?b \<le> 0 + Suc 0" "synced_at ?b 0 \<or> isBatching ?b"
    by (simp_all add: demo_signal_simps)
  have db: "deferred ?b 0" by (simp add: deferred_def demo_signal_simps)
  have cb: "changes (Num 0) [Num 1, Num 2]" by (simp add: changes_def strict_ne_def)
  from writes_notify_on_change [OF demo_wf n sy, of "[Num 1, Num 5, Num 5, Num 6]"]
  have a: "\<exists>st' evs. exec 3 (map (Write 0) [Num 1, Num 5, Num 5, Num 6]) demo_graph = Some (False, st') \<and>
      trace st' = trace demo_graph @ evs \<and>
      events_at 0 evs = [(None, Num 5), (Some 2, Num 5), (None, Num 6), (Some 2, Num 6)] \<and>
      length (filter (\<lambda>h. fst h = None) (events_at 0 evs)) = 2 \<and>
      get_value (objs st' 0) = Num 6"
    using nd by (simp add: demo_obj0 get_value_def strict_ne_def round_def numeral_2_eq_2)
  from writes_notify_on_change [OF wb nb, of "[Num 1, Num 2]"]
  have b: "\<exists>st'. exec 0 (map (Write 0) [Num 1, Num 2]) ?b = Some (False, st') \<and>
      trace st' = [] \<and> value_field (objs st' 0) = Num 0 \<and> 0 \<in> set (updateQueue st') \<and>
      get_value (objs st' 0) = Num 2"
    using db cb by (auto simp: demo_signal_simps get_value_def)
  from a b demo_wf n sy wb show ?thesis by blast
qed

text \<open>
  Claim C5, as stated, fails: writing the two distinct values 1 and 0 inside one batch
  to a signal that held 0 notifies nobody, since the flush passes the final value to
  \<^verbatim>\<open>updateValue\<close>, which compares it with the value last notified.
\<close>

theorem batched_writes_counterexample:
  "Num 1 \<noteq> Num 0 \<and>
   map_option (\<lambda>(threw, st'). (threw, trace st'))
     (batchUpdate 0 [Write 0 (Num 1), Write 0 (Num 0)] demo_signal) = Some (False, [])"
  by (simp add: demo_signal_def run_simps)

text \<open>
  Claim C5, amended. For every signal \<open>s\<close> in sync, with no batch open and nothing
  pending, and every \<open>N \<ge> 1\<close> values written to it inside one batch body (each write
  followed by a read): every read returns the value just written; no event is recorded
  before the body has returned; then the subscribers of \<open>s\<close> receive exactly one change
  notification, carrying the final value, if the final value is \<^verbatim>\<open>!==\<close> the value
  held before the batch, and none otherwise; afterwards \<open>s\<close> holds the final value, the
  flag is clear and the queue is empty.
\<close>

theorem batched_writes_notify_once:
  assumes wf: "wf_state st" and s: "s < next_id st" and fu: "next_id st \<le> fuel + Suc s"
    and nb: "\<not> isBatching st" and q: "updateQueue st = []"
    and cur: "current (objs st s) = Some v0" and val: "value_field (objs st s) = v0"
    and ne: "vs \<noteq> []"
  shows "\<exists>st' evs. batchUpdate fuel (concat (map (\<lambda>v. [Write s v, Read s]) vs)) st = Some (False, st') \<and>
           trace st' = trace st @ map (ReadEv s) vs @ evs \<and>
           events_at s evs = (if strict_ne (last vs) v0
                              then round (change_listeners (objs st s)) (last vs) else []) \<and>
           get_value (objs st' s) = last vs \<and> \<not> isBatching st' \<and> updateQueue st' = []"
proof -
  let ?body = "concat (map (\<lambda>v. [Write s v, Read s]) vs)"
  let ?q = "if changes v0 vs then [s] else []"
  let ?st1 = "in_batch st s (last vs) ?q (trace st @ map (ReadEv s) vs)"
  have start: "st\<lparr>isBatching := True\<rparr> = in_batch st s v0 [] (trace st)"
    by (simp add: in_batch_def cur [symmetric] q [symmetric])
  have body: "exec fuel ?body (st\<lparr>isBatching := True\<rparr>) = Some (False, ?st1)"
    unfolding start body_in_batch using ne by (simp add: queue_add_def)
  let ?st3 = "?st1\<lparr>isBatching := False\<rparr>"
  show ?thesis
  proof (cases "changes v0 vs")
    case False
    from no_changes [OF False ne] have n: "\<not> strict_ne (last vs) v0" by blast
    from False have "batchUpdate fuel ?body st = Some (False, ?st3\<lparr>updateQueue := []\<rparr>)"
      using body by simp
    moreover have "trace (?st3\<lparr>updateQueue := []\<rparr>) = trace st @ map (ReadEv s) vs @ []"
      by (simp add: in_batch_def)
    moreover have "get_value (objs (?st3\<lparr>updateQueue := []\<rparr>) s) = last vs"
      by (simp add: in_batch_def get_value_def)
    moreover have "\<not> isBatching (?st3\<lparr>updateQueue := []\<rparr>)" "updateQueue (?st3\<lparr>updateQueue := []\<rparr>) = []"
      by simp_all
    ultimately show ?thesis using n by (intro exI [of _ "?st3\<lparr>updateQueue := []\<rparr>"] exI [of _ "[]"]) simp
  next
    case True
    have wf3: "wf_state ?st3" by (rule wf_state_cong [OF wf]) simp_all
    have n3: "next_id ?st3 = next_id st" by (simp add: in_batch_def)
    have g3: "get_value (objs ?st3 s) = last vs" by (simp add: in_batch_def get_value_def)
    have v3: "value_field (objs ?st3 s) = v0" "change_listeners (objs ?st3 s) = change_listeners (objs st s)"
      using val by (simp_all add: in_batch_def)
    have s3: "s < next_id ?st3" "next_id ?st3 \<le> fuel + Suc s" using s fu by simp_all
    from frame(3) [rule_format, OF wf3 s3, of "last vs"] obtain st4 where
      u: "updateValue fuel s (last vs) ?st3 = Some st4"
      and r0: "rel s s (if strict_ne (last vs) (value_field (objs ?st3 s))
                        then round (change_listeners (objs ?st3 s)) (last vs) else []) ?st3 st4"
      and o0: "objs st4 s = (if strict_ne (last vs) (value_field (objs ?st3 s))
                        then (objs ?st3 s)\<lparr>value_field := last vs\<rparr> else objs ?st3 s)"
      by blast
    note r = r0 [unfolded v3] and o = o0 [unfolded v3]
    from r obtain evs where sh: "shape ?st3 st4" and t: "trace st4 = trace ?st3 @ evs"
      and a: "events_at s evs = (if strict_ne (last vs) v0 then round (change_listeners (objs st s)) (last vs) else [])"
      unfolding rel_def by blast
    have f: "flush fuel [s] ?st3 = Some st4" using u g3 by simp
    have "batchUpdate fuel ?body st = Some (False, st4\<lparr>updateQueue := []\<rparr>)"
      using body True f by simp
    moreover have "trace (st4\<lparr>updateQueue := []\<rparr>) = trace st @ map (ReadEv s) vs @ evs"
      using t by (simp add: in_batch_def)
    moreover have "get_value (objs (st4\<lparr>updateQueue := []\<rparr>) s) = last vs"
      using o by (simp add: in_batch_def get_value_def)
    moreover have "\<not> isBatching (st4\<lparr>updateQueue := []\<rparr>)"
      using sh by (simp add: shape_def)
    ultimately show ?thesis using a by (intro exI [of _ "st4\<lparr>updateQueue := []\<rparr>"] exI [of _ evs]) simp
  qed
qed

theorem batched_writes_notify_once_witness:
  "wf_state demo_graph \<and> 0 < next_id demo_graph \<and> next_id demo_graph \<le> 3 + Suc 0 \<and>
   \<not> isBatching demo_graph \<and> updateQueue demo_graph = [] \<and>
   current (objs demo_graph 0) = Some (Num 1) \<and> value_field (objs demo_graph 0) = Num 1 \<and>
   [Num 5, Num 6] \<noteq> [] \<and>
   (\<exists>st' evs.
      batchUpdate 3 [Write 0 (Num 5), Read 0, Write 0 (Num 6), Read 0] demo_graph = Some (False, st') \<and>
      trace st' = trace demo_graph @ [ReadEv 0 (Num 5), ReadEv 0 (Num 6)] @ evs \<and>
      events_at 0 evs = [(None, Num 6), (Some 2, Num 6)] \<and>
      get_value (objs st' 0) = Num 6 \<and> \<not> isBatching st' \<and> updateQueue st' = [])"
proof -
  have h: "0 < next_id demo_graph" "next_id demo_graph \<le> 3 + Suc 0" "\<not> isBatching demo_graph"
    "updateQueue demo_graph = []" "current (objs demo_graph 0) = Some (Num 1)"
    "value_field (objs demo_graph 0) = Num 1" "[Num 5, Num 6] \<noteq> []"
    by (simp_all add: demo_graph_def)
  from batched_writes_notify_once [OF demo_wf h]
  show ?thesis
    using demo_wf h by (simp add: demo_obj0 strict_ne_def round_def)
qed

text \<open>
  Claim C1 fails on the code. \<^verbatim>\<open>batchUpdate\<close> keeps no nesting count: the
  \<^verbatim>\<open>finally\<close> block of the inner call clears the flag and flushes the queue while
  the outer body is still running. In the outer body below, the subscriber is notified
  of 2 when the inner batch ends, the flag is clear and the queue empty in the middle of
  the outer body, and the write of 3 that follows notifies at once: the outer batch
  produces two notifications, both before its body has completed.
\<close>

theorem nested_batch_flushes_early:
  "map_option (\<lambda>(threw, st'). (threw, isBatching st', updateQueue st', trace st'))
     (exec 0 [Write 0 (Num 1), Batch [Write 0 (Num 2)]] (demo_signal\<lparr>isBatching := True\<rparr>))
   = Some (False, False, [], [Emitted 0 (Num 2), Notified 0 7 (Num 2) [Num 2]]) \<and>
   map_option (\<lambda>(threw, st'). trace st')
     (batchUpdate 0 [Write 0 (Num 1), Batch [Write 0 (Num 2)], Read 0, Write 0 (Num 3), Read 0]
        demo_signal)
   = Some [Emitted 0 (Num 2), Notified 0 7 (Num 2) [Num 2], ReadEv 0 (Num 2),
           Emitted 0 (Num 3), Notified 0 7 (Num 3) [Num 3], ReadEv 0 (Num 3)]"
  by (simp add: demo_signal_def run_simps)

lemma static_refl: "static st st"
  by (simp add: static_def)

lemma static_trans: "static a b \<Longrightarrow> static b c \<Longrightarrow> static a c"
  by (simp add: static_def)

lemma static_wf: "static st st' \<Longrightarrow> wf_state st \<Longrightarrow> wf_state st'"
  by (simp add: static_def wf_state_def)

lemma shape_static: "shape st st' \<Longrightarrow> static st st'"
  by (simp add: shape_def static_def)

lemma synced_at_updateQueue [simp]: "synced_at (st\<lparr>updateQueue := q\<rparr>) = synced_at st"
  by (simp add: fun_eq_iff synced_at_def)

lemma flush_syncs:
  assumes "wf_state st" and "\<not> isBatching st" and "list_all (\<lambda>q. q < next_id st) qs"
    and "next_id st \<le> fuel"
  shows "\<exists>st'. flush fuel qs st = Some st' \<and> shape st st' \<and>
           (\<forall>p. synced_at st p \<longrightarrow> synced_at st' p) \<and> list_all (synced_at st') qs"
  using assms
proof (induction qs arbitrary: st)
  case Nil
  then show ?case by (simp add: shape_refl)
next
  case (Cons ob qs)
  from Cons.prems have ob: "ob < next_id st" and fu: "next_id st \<le> fuel + Suc ob" by simp_all
  let ?v = "get_value (objs st ob)"
  from frame(3) [rule_format, OF Cons.prems(1) ob fu, of ?v] obtain st1 hs where
    u: "updateValue fuel ob ?v st = Some st1"
    and r: "rel ob ob hs st st1"
    and o: "objs st1 ob = (if strict_ne ?v (value_field (objs st ob))
                           then (objs st ob)\<lparr>value_field := ?v\<rparr> else objs st ob)"
    by blast
  have s1: "synced_at st1 ob"
  proof (cases "strict_ne ?v (value_field (objs st ob))")
    case True
    with o show ?thesis by (simp add: synced_at_def get_value_def split: option.splits)
  next
    case False
    from not_strict_ne [OF False] o False show ?thesis by (simp add: synced_at_def)
  qed
  from r have sh: "shape st st1" by (simp add: rel_def)
  from r Cons.prems(2) s1 have pres: "\<forall>p. synced_at st p \<longrightarrow> synced_at st1 p"
    unfolding rel_def by metis
  from sh have n1: "next_id st1 = next_id st" and b1: "\<not> isBatching st1"
    using Cons.prems(2) by (simp_all add: shape_def)
  from Cons.IH [OF shape_wf [OF sh Cons.prems(1)] b1] Cons.prems(3,4) n1 obtain st2 where
    f: "flush fuel qs st1 = Some st2" and sh2: "shape st1 st2"
    and pres2: "\<forall>p. synced_at st1 p \<longrightarrow> synced_at st2 p" and all2: "list_all (synced_at st2) qs"
    by auto
  from u f have "flush fuel (ob # qs) st = Some st2" by simp
  with shape_trans [OF sh sh2] pres pres2 s1 all2 show ?case by auto
qed

lemma exec_total:
  shows
  "wf_state st \<longrightarrow> next_id st \<le> fuel \<longrightarrow> queue_ok st \<longrightarrow> stmt_ok (next_id st) s \<longrightarrow>
     (\<exists>st'. exec_stmt fuel s st = Some (throws_stmt s, st') \<and> static st st' \<and> queue_ok st')"
  and
  "wf_state st \<longrightarrow> next_id st \<le> fuel \<longrightarrow> queue_ok st \<longrightarrow> stmts_ok (next_id st) ss \<longrightarrow>
     (\<exists>st'. exec fuel ss st = Some (throws ss, st') \<and> static st st' \<and> queue_ok st')"
  and
  "wf_state st \<longrightarrow> next_id st \<le> fuel \<longrightarrow> queue_ok st \<longrightarrow> stmts_ok (next_id st) updateFn \<longrightarrow>
     (\<exists>st1 st'. exec fuel updateFn (st\<lparr>isBatching := True\<rparr>) = Some (throws updateFn, st1) \<and>
        batchUpdate fuel updateFn st = Some (throws updateFn, st') \<and> static st st' \<and>
        \<not> isBatching st' \<and> updateQueue st' = [] \<and> list_all (synced_at st') (updateQueue st1))"
proof (induction fuel s st and fuel ss st and fuel updateFn st
       rule: exec_stmt_exec_batchUpdate.induct)
  case (1 fuel ob v st)
  show ?case
  proof (intro impI)
    assume wf: "wf_state st" and fu: "next_id st \<le> fuel" and q: "queue_ok st"
      and ok: "stmt_ok (next_id st) (Write ob v)"
    from ok have ob: "ob < next_id st" by simp
    from fu have fu': "next_id st \<le> fuel + Suc ob" by simp
    from frame(4) [rule_format, OF wf ob fu', of v] obtain st' hs where
      s: "set_value fuel ob v st = Some st'" and r: "rel ob ob hs st st'"
      by blast
    from r have sh: "shape st st'" by (simp add: rel_def)
    have "queue_ok st'"
      using r q sh unfolding rel_def queue_ok_def shape_def list_all_iff by auto
    with s shape_static [OF sh]
    show "\<exists>st'. exec_stmt fuel (Write ob v) st = Some (throws_stmt (Write ob v), st') \<and>
        static st st' \<and> queue_ok st'"
      by simp
  qed
next
  case (2 fuel ob st)
  show ?case by (simp add: static_def queue_ok_def)
next
  case (3 fuel updateFn st)
  show ?case
  proof (intro impI)
    assume wf: "wf_state st" and fu: "next_id st \<le> fuel" and q: "queue_ok st"
      and ok: "stmt_ok (next_id st) (Batch updateFn)"
    from "3.IH" wf fu q ok obtain st' where
      "batchUpdate fuel updateFn st = Some (throws updateFn, st')" "static st st'"
      "updateQueue st' = []"
      by auto
    then show "\<exists>st'. exec_stmt fuel (Batch updateFn) st = Some (throws_stmt (Batch updateFn), st') \<and>
        static st st' \<and> queue_ok st'"
      by (simp add: queue_ok_def)
  qed
next
  case (4 fuel e st)
  show ?case by (simp add: static_refl)
next
  case (5 fuel st)
  show ?case by (simp add: static_refl)
next
  case (6 fuel s ss st)
  show ?case
  proof (intro impI)
    assume wf: "wf_state st" and fu: "next_id st \<le> fuel" and q: "queue_ok st"
      and ok: "stmts_ok (next_id st) (s # ss)"
    from "6.IH"(1) wf fu q ok obtain st1 where
      e1: "exec_stmt fuel s st = Some (throws_stmt s, st1)" and s1: "static st st1"
      and q1: "queue_ok st1"
      by auto
    show "\<exists>st'. exec fuel (s # ss) st = Some (throws (s # ss), st') \<and> static st st' \<and> queue_ok st'"
    proof (cases "throws_stmt s")
      case True
      with e1 s1 q1 show ?thesis by auto
    next
      case False
      from s1 have n1: "next_id st1 = next_id st" by (simp add: static_def)
      from e1 False have e1': "exec_stmt fuel s st = Some (False, st1)" by simp
      from "6.IH"(2) [OF e1' refl refl] static_wf [OF s1 wf] fu q1 ok n1 obtain st2 where
        "exec fuel ss st1 = Some (throws ss, st2)" "static st1 st2" "queue_ok st2"
        by auto
      with e1 False s1 show ?thesis by (auto intro: static_trans)
    qed
  qed
next
  case (7 fuel updateFn st)
  show ?case
  proof (intro impI)
    assume wf: "wf_state st" and fu: "next_id st \<le> fuel" and q: "queue_ok st"
      and ok: "stmts_ok (next_id st) updateFn"
    let ?st0 = "st\<lparr>isBatching := True\<rparr>"
    have wf0: "wf_state ?st0" by (rule wf_state_cong [OF wf]) simp_all
    have q0: "queue_ok ?st0" using q by (simp add: queue_ok_def)
    from "7.IH" wf0 fu q0 ok obtain st1 where
      e: "exec fuel updateFn ?st0 = Some (throws updateFn, st1)" and s1: "static ?st0 st1"
      and q1: "queue_ok st1"
      by auto
    let ?st2 = "st1\<lparr>isBatching := False\<rparr>"
    from s1 have n1: "next_id st1 = next_id st" by (simp add: static_def)
    have wf2: "wf_state ?st2" by (rule wf_state_cong [OF static_wf [OF s1 wf0]]) simp_all
    have q2: "list_all (\<lambda>q. q < next_id ?st2) (updateQueue st1)" using q1 by (simp add: queue_ok_def)
    from flush_syncs [OF wf2 _ q2, of fuel] fu n1 obtain st3 where
      f: "flush fuel (updateQueue st1) ?st2 = Some st3" and sh: "shape ?st2 st3"
      and all: "list_all (synced_at st3) (updateQueue st1)"
      by auto
    have b: "batchUpdate fuel updateFn st = Some (throws updateFn, st3\<lparr>updateQueue := []\<rparr>)"
      using e f by simp
    have st: "static st (st3\<lparr>updateQueue := []\<rparr>)"
      using s1 sh by (simp add: static_def shape_def)
    have nb: "\<not> isBatching (st3\<lparr>updateQueue := []\<rparr>)" using sh by (simp add: shape_def)
    have all': "list_all (synced_at (st3\<lparr>updateQueue := []\<rparr>)) (updateQueue st1)"
      using all by simp
    from e b st nb all'
    show "\<exists>st1 st'. exec fuel updateFn ?st0 = Some (throws updateFn, st1) \<and>
        batchUpdate fuel updateFn st = Some (throws updateFn, st') \<and> static st st' \<and>
        \<not> isBatching st' \<and> updateQueue st' = [] \<and> list_all (synced_at st') (updateQueue st1)"
      by (intro exI [of _ st1] exI [of _ "st3\<lparr>updateQueue := []\<rparr>"]) simp
  qed
qed

section \<open>Properties of batches when client code throws\<close>

text \<open>
  With client code that never throws, the functions with the exception path are the
  functions without it.
\<close>

lemma returning_agrees:
  shows
  "emit_change_exn returning fuel ob ls v st = map_option (Pair None) (emit_change fuel ob ls v st)"
  and
  "invoke_exn returning fuel ob l v st = map_option (Pair None) (invoke fuel ob l v st)"
  and
  "updateValue_exn returning fuel ob v st = map_option (Pair None) (updateValue fuel ob v st)"
  and
  "set_value_exn returning fuel ob v st = map_option (Pair None) (set_value fuel ob v st)"
proof (induction fuel ob ls v st and fuel ob l v st and fuel ob v st and fuel ob v st
       rule: emit_change_invoke_updateValue_set_value.induct)
  case (2 fuel ob l ls v st)
  show ?case
  proof (cases "invoke fuel ob l v st")
    case None
    with "2.IH"(1) show ?thesis by simp
  next
    case (Some st1)
    with "2.IH"(1) "2.IH"(2) [OF Some] show ?thesis by simp
  qed
next
  case (6 fuel ob c i observables transform v st)
  then show ?case by (simp add: returning_def)
next
  case (7 fuel ob newValue st)
  show ?case
  proof (cases "strict_ne newValue (value_field (objs st ob))")
    case True
    from "7.IH" [OF True] True show ?thesis by (simp add: updateValue.simps updateValue_exn.simps)
  next
    case False
    then show ?thesis by (simp add: updateValue.simps updateValue_exn.simps)
  qed
next
  case (8 fuel ob newValue st)
  show ?case
  proof (cases "current (objs st ob)")
    case None
    show ?thesis
    proof (cases "strict_ne newValue (value_field (objs st ob))")
      case True
      from "8.IH"(1) [OF None True] None True show ?thesis by (simp add: set_value.simps set_value_exn.simps)
    next
      case False
      with None show ?thesis by (simp add: set_value.simps set_value_exn.simps)
    qed
  next
    case (Some cv)
    show ?thesis
    proof (cases "strict_ne newValue cv")
      case False
      with Some show ?thesis by (simp add: set_value.simps set_value_exn.simps)
    next
      case True
      show ?thesis
      proof (cases "isBatching st")
        case b: True
        with Some True show ?thesis by (simp add: set_value.simps set_value_exn.simps)
      next
        case nb: False
        from "8.IH"(2) [OF Some True nb] Some True nb show ?thesis by (simp add: set_value.simps set_value_exn.simps)
      qed
    qed
  qed
qed (simp_all add: returning_def)

lemma returning_flush_agrees:
  "flush_exn returning fuel q st = map_option (Pair None) (flush fuel q st)"
proof (induction q arbitrary: st)
  case Nil
  show ?case by simp
next
  case (Cons ob q)
  show ?case
    by (cases "updateValue fuel ob (get_value (objs st ob)) st")
       (simp_all add: returning_agrees(3) Cons.IH)
qed

lemma returning_exec_agrees:
  shows
  "map_option (\<lambda>(r, s). (r \<noteq> None, s)) (exec_stmt_exn returning fuel s st) = exec_stmt fuel s st"
  and
  "map_option (\<lambda>(r, s). (r \<noteq> None, s)) (exec_exn returning fuel ss st) = exec fuel ss st"
  and
  "map_option (\<lambda>(r, s). (r \<noteq> None, s)) (batchUpdate_exn returning fuel updateFn st) =
     batchUpdate fuel updateFn st"
proof (induction fuel s st and fuel ss st and fuel updateFn st
       rule: exec_stmt_exec_batchUpdate.induct)
  case (1 fuel ob v st)
  show ?case by (cases "set_value fuel ob v st") (simp_all add: returning_agrees(4))
next
  case (6 fuel s ss st)
  show ?case
  proof (cases "exec_stmt_exn returning fuel s st")
    case None
    with "6.IH"(1) show ?thesis by (simp split: option.splits)
  next
    case (Some a)
    obtain r st1 where a: "a = (r, st1)" by (cases a)
    show ?thesis
    proof (cases r)
      case None
      with "6.IH"(1) Some a have e: "exec_stmt fuel s st = Some (False, st1)" by simp
      from "6.IH"(2) [OF e refl refl] e Some a None show ?thesis by simp
    next
      case (Some e)
      with "6.IH"(1) \<open>exec_stmt_exn returning fuel s st = Some a\<close> a
      have "exec_stmt fuel s st = Some (True, st1)" by simp
      with Some \<open>exec_stmt_exn returning fuel s st = Some a\<close> a show ?thesis by simp
    qed
  qed
next
  case (7 fuel updateFn st)
  show ?case
  proof (cases "exec_exn returning fuel updateFn (st\<lparr>isBatching := True\<rparr>)")
    case None
    with "7.IH" show ?thesis by (simp split: option.splits)
  next
    case (Some a)
    obtain r st1 where a: "a = (r, st1)" by (cases a)
    with "7.IH" Some have e: "exec fuel updateFn (st\<lparr>isBatching := True\<rparr>) = Some (r \<noteq> None, st1)"
      by simp
    show ?thesis
      by (cases "flush fuel (updateQueue st1) (st1\<lparr>isBatching := False\<rparr>)")
         (simp_all add: Some a e returning_flush_agrees)
  qed
qed simp_all





lemmas run_exn_simps = set_value_exn.simps updateValue_exn.simps get_value_def strict_ne_def
  queue_add_def snapshot_def

lemma demo_pair_built:
  "(case signal (Num 0) init_state of (x, s1) \<Rightarrow>
    case signal (Num 0) s1 of (y, s2) \<Rightarrow>
      subscribe y (Subscriber 1) (subscribe x (Subscriber 0) s2)) = demo_pair"
  by (simp add: signal_def new_observable_def init_state_def subscribe_def demo_pair_def fun_eq_iff)





text \<open>
  The first batch of the counterexample with client code that returns: both subscribers
  are told 1 during the flush, the queue is emptied, and the caller receives the
  exception of the body.
\<close>

lemma demo_returning_batch:
  "map_option (\<lambda>(r, st'). (r, isBatching st', updateQueue st', events_at 0 (trace st'),
                            events_at 1 (trace st')))
     (batchUpdate_exn returning 2 [Write 0 (Num 1), Write 1 (Num 1), Throw (Str ''body'')] demo_pair)
   = Some (Some (Str ''body''), False, [], [(None, Num 1), (Some 0, Num 1)],
           [(None, Num 1), (Some 1, Num 1)])"
  by (simp add: demo_pair_def returning_def run_exn_simps numeral_2_eq_2)

section \<open>Properties of computed values inside a batch, and of effects\<close>


lemma plain_target_cong:
  "\<forall>q. (current (objs st' q) = None) = (current (objs st q) = None) \<Longrightarrow>
     plain_target st' l = plain_target st l"
  by (cases l) simp_all



lemma plain_targets_flag [simp]: "plain_targets (st\<lparr>isBatching := b\<rparr>) = plain_targets st"
proof -
  have "plain_target (st\<lparr>isBatching := b\<rparr>) = plain_target st"
    by (rule ext, rule plain_target_cong) simp
  then show ?thesis by (simp add: plain_targets_def)
qed

lemma wf_state_flag [simp]: "wf_state (st\<lparr>isBatching := b\<rparr>) = wf_state st"
  by (simp add: wf_state_def)

lemma snapshot_flag [simp]: "snapshot (st\<lparr>isBatching := b\<rparr>) = snapshot st"
  by (simp add: snapshot_def)

lemma snapshot_queue [simp]: "snapshot (st\<lparr>updateQueue := q\<rparr>) = snapshot st"
  by (simp add: snapshot_def)







text \<open>Inside a batch, writes to signals record nothing and leave every \<^verbatim>\<open>_value\<close> as it is.\<close>

lemma signal_writes_deferred:
  assumes "isBatching st"
    and "list_all (\<lambda>(ob, v). current (objs st ob) \<noteq> None) ws"
  shows "\<exists>st1. exec fuel (map (\<lambda>(ob, v). Write ob v) ws) st = Some (False, st1) \<and>
           trace st1 = trace st \<and> isBatching st1 \<and>
           (\<forall>p. value_field (objs st1 p) = value_field (objs st p) \<and>
                change_listeners (objs st1 p) = change_listeners (objs st p))"
  using assms
proof (induction ws arbitrary: st)
  case Nil
  then show ?case by simp
next
  case (Cons w ws)
  obtain ob v where w: "w = (ob, v)" by (cases w)
  from Cons.prems(2) w obtain cv where cv: "current (objs st ob) = Some cv" by auto
  let ?st1 = "if strict_ne v cv
              then st\<lparr>objs := (objs st)(ob := (objs st ob)\<lparr>current := Some v\<rparr>),
                      updateQueue := queue_add ob (updateQueue st)\<rparr>
              else st"
  have s: "set_value fuel ob v st = Some ?st1"
    using cv Cons.prems(1) by (simp add: set_value.simps)
  have b1: "isBatching ?st1" using Cons.prems(1) by simp
  have l1: "list_all (\<lambda>(ob, v). current (objs ?st1 ob) \<noteq> None) ws"
    using Cons.prems(2) by (auto simp: list_all_iff)
  from Cons.IH [OF b1 l1] obtain st2 where
    x: "exec fuel (map (\<lambda>(ob, v). Write ob v) ws) ?st1 = Some (False, st2)"
    and t: "trace st2 = trace ?st1" and b2: "isBatching st2"
    and f: "\<forall>p. value_field (objs st2 p) = value_field (objs ?st1 p) \<and>
                change_listeners (objs st2 p) = change_listeners (objs ?st1 p)"
    by blast
  have "exec fuel (map (\<lambda>(ob, v). Write ob v) (w # ws)) st = Some (False, st2)"
    using s x w by simp
  moreover have "trace st2 = trace st" using t by simp
  moreover have "\<forall>p. value_field (objs st2 p) = value_field (objs st p) \<and>
                change_listeners (objs st2 p) = change_listeners (objs st p)"
    using f by simp
  ultimately show ?case using b2 by blast
qed

lemma state_idem:
  "\<not> isBatching st \<Longrightarrow> updateQueue st = [] \<Longrightarrow> st\<lparr>isBatching := False, updateQueue := []\<rparr> = st"
  by simp






text \<open>
  In the example graph: one notification of \<open>d\<close> for the two writes to the signal
  \<open>a\<close>, two notifications of \<open>c\<close> for the two writes to the plain observable \<open>b\<close>.
\<close>

lemma demo_batched_source:
  "map_option (\<lambda>(threw, st'). events_at 3 (trace st'))
     (batchUpdate 3 (map (Write 0) [Num 5, Num 6]) demo_graph) = Some [(None, Num 14), (Some 1, Num 14)] \<and>
   map_option (\<lambda>(threw, st'). events_at 2 (trace st'))
     (batchUpdate 3 (map (Write 1) [Num 5, Num 6]) demo_graph) =
     Some [(None, Num 6), (Some 0, Num 6), (None, Num 7), (Some 0, Num 7)]"
  by (simp add: demo_graph_def run_simps add_nums_def numeral_3_eq_3)

lemma listeners_subscribe:
  "change_listeners (objs (subscribe ob l st) p) =
     change_listeners (objs st p) @ (if p = ob then [l] else [])"
  by (simp add: subscribe_def)

lemma effect_loop_throws:
  "effect_loop ex (map Instance obs @ Other # rest) unsubs st =
     (Inl (TypeError ''Each dependency must be an instance of ObservableValue.''),
      subscribe_all (map (\<lambda>ob. (ob, ex)) obs) st)"
  by (induction obs arbitrary: unsubs st) simp_all

lemma listeners_subscribe_all:
  "change_listeners (objs (subscribe_all (map (\<lambda>ob. (ob, ex)) obs) st) p) =
     change_listeners (objs st p) @ map (\<lambda>ob. ex) (filter (\<lambda>ob. ob = p) obs)"
  by (induction obs arbitrary: st) (simp_all add: listeners_subscribe)

text \<open>
  Claim C10. For every dependency array whose first \<open>k\<close> elements are
  \<^verbatim>\<open>ObservableValue\<close> instances \<open>obs\<close> and whose next element is not, \<^verbatim>\<open>effect\<close>
  throws the \<^verbatim>\<open>TypeError\<close> and returns no cleanup function, and the state it leaves
  has \<^verbatim>\<open>executeCallback\<close> subscribed to each of the \<open>k\<close> instances, once per
  occurrence in the array: the subscriptions made before the throw stay.
\<close>

theorem effect_not_atomic:
  "\<exists>st'. effect callback (Array (map Instance obs @ Other # rest)) st =
           (Inl (TypeError ''Each dependency must be an instance of ObservableValue.''), st') \<and>
         (\<forall>p. change_listeners (objs st' p) =
                change_listeners (objs st p) @
                map (\<lambda>ob. ExecuteCallback (next_effect st) callback) (filter (\<lambda>ob. ob = p) obs))"
  by (simp add: effect_def effect_loop_throws listeners_subscribe_all)

section \<open>Properties of tasks\<close>

text \<open>
  Claim C7 fails on the code for a work function that rejects with a falsy reason
  (\<^verbatim>\<open>Promise.reject()\<close>, \<^verbatim>\<open>throw undefined\<close>, \<^verbatim>\<open>reject(0)\<close>): \<^verbatim>\<open>run\<close> tests
  \<^verbatim>\<open>if (error)\<close>, takes the rejection for a success, emits \<^verbatim>\<open>done\<close> instead of
  \<^verbatim>\<open>error\<close>, leaves \<^verbatim>\<open>has_error\<close> false and fulfils its promise.
\<close>

theorem run_falsy_rejection:
  "run [] (Returns (Rejects Undefined)) create =
     (Inr Undefined,
      create\<lparr>executed := True, result := Some Undefined,
             task_trace := [Emits PStart, Emits (PDone Undefined)]\<rparr>) \<and>
   \<not> has_error (snd (run [] (Returns (Rejects Undefined)) create)) \<and>
   list_all (\<lambda>e. case e of Emits (PError x) \<Rightarrow> False | _ \<Rightarrow> True)
     (task_trace (snd (run [] (Returns (Rejects Undefined)) create)))"
  by (simp add: run_def settle_def task_emit_def create_def)

text \<open>
  The rest of the protocol is as the claim says: a rejection with a truthy reason sets
  both flags, emits \<^verbatim>\<open>error\<close> with the reason and rejects \<^verbatim>\<open>run\<close>; a fulfilled
  promise sets \<^verbatim>\<open>executed\<close>, stores the result and emits \<^verbatim>\<open>done\<close>; a work
  function that throws before it returns a promise rejects \<^verbatim>\<open>run\<close> after
  \<^verbatim>\<open>start\<close> with no flag set and no \<^verbatim>\<open>error\<close> event; a safe abort
  sets \<^verbatim>\<open>executed\<close> and the cancellation token and emits nothing; any other abort
  also sets \<^verbatim>\<open>has_error\<close> and emits \<^verbatim>\<open>error\<close> with the abort error.
\<close>

lemma run_rejects_truthy:
  "truthy e \<Longrightarrow>
     run during (Returns (Rejects e)) t =
       (Inl e, task_emit (PError (Reason e))
                 ((fold act during (task_emit PStart t))\<lparr>executed := True, has_error := True\<rparr>))"
  by (simp add: run_def settle_def Let_def)

lemma run_resolves:
  "run during (Returns (Resolves r)) t =
     (Inr r, task_emit (PDone r)
               ((fold act during (task_emit PStart t))\<lparr>executed := True, result := Some r\<rparr>))"
  by (simp add: run_def settle_def Let_def)

lemma run_throws_sync:
  "run during (ThrowsSync e) t = (Inl e, fold act during (task_emit PStart t))"
  by (simp add: run_def Let_def)

lemma abort_safe:
  "abort True t = t\<lparr>executed := True, aborted := True\<rparr>"
  by (simp add: abort_def)

lemma abort_unsafe:
  "abort False t =
     t\<lparr>executed := True, has_error := True, aborted := True,
       task_trace := task_trace t @ Emits (PError (AbortError ''abborted'')) #
                       map (\<lambda>l. Calls l (PError (AbortError ''abborted''))) (eventListeners t KError)\<rparr>"
  by (simp add: abort_def task_emit_def)


end
